theory Spec2Isabelle
  imports Main "HOL-Library.Char_ord" "HOL-Library.List_Lexorder" "HOL-Library.Multiset"
begin
section \<open>Data model of the font catalog\<close>

text \<open>
  The two scripts (the build script and \<open>utils/format.js\<close>) read the catalog
  \<open>fonts.json\<close> with \<open>JSON.parse\<close>. The objects of the catalog are modelled as
  records: a field the scripts test for presence is an \<open>option\<close> (\<open>None\<close> is
  JavaScript's \<open>undefined\<close>), the fields the documented schema requires are plain
  values, and every attribute the scripts never name is kept in an association list
  (\<open>i_other\<close>, \<open>f_other\<close>, \<open>g_other\<close>, \<open>c_other\<close>). Strings are compared as
  JavaScript compares them, lexicographically by code unit.
\<close>

type_synonym bytes = "nat list"

datatype json =
    JString string
  | JNumber nat
  | JArray "json list"
  | JObject "(string \<times> json) list"

record installation =
  i_type :: string
  i_localPath :: "string option"
  i_url :: "string option"
  i_download :: "string option"
  i_files :: "string list option"
  i_other :: "(string \<times> json) list"

record font =
  f_id :: string
  f_name :: string
  f_shortName :: string
  f_publisher :: string
  f_categories :: "string list"
  f_installations :: "installation list"
  f_other :: "(string \<times> json) list"

record group =
  g_name :: string
  g_fonts :: "string list"
  g_other :: "(string \<times> json) list"

record catalog =
  c_fonts :: "font list"
  c_groups :: "group list option"
  c_other :: "(string \<times> json) list"

text \<open>An entry of the script's \<open>downloads\<close> array, with its internal fields.\<close>

record download =
  d_id :: string
  d_downloadURL :: string
  d_fileSize :: nat
  d_hash :: string
  d_type :: string
  d_localFile :: "string option"
  d_url :: "string option"

text \<open>A download as it is written to the manifest (internal fields stripped).\<close>

record download_out =
  o_id :: string
  o_downloadURL :: string
  o_fileSize :: nat
  o_hash :: string

record manifest =
  m_version :: string
  m_downloads :: "download_out list"
  m_fonts :: "font list"

section \<open>Environment, effects and errors\<close>

text \<open>
  What the scripts take from Node.js and from the machine is a parameter of the model:
  the environment variables, the library functions \<open>path.normalize\<close>,
  \<open>path.extname\<close>, \<open>normalize-url\<close> (which throws on an invalid URL),
  \<open>encodeURIComponent\<close>, the SHA-256 hex digest, the results of \<open>randomUUID\<close> in the
  order of the calls, the contents of the local files (by the path relative to the
  catalog, \<open>None\<close> when the file cannot be read) and the answer of the network to a
  \<open>fetch\<close>.
\<close>

datatype response =
    Rejected string
  | Response nat "string + bytes"

record env =
  env_VERSION :: "string option"
  env_URL_PREFIX :: "string option"
  randomUUID :: "nat \<Rightarrow> string"
  normalize :: "string \<Rightarrow> string"
  normalizeUrl :: "string \<Rightarrow> string option"
  extname :: "string \<Rightarrow> string"
  encodeURIComponent :: "string \<Rightarrow> string"
  sha256hex :: "bytes \<Rightarrow> string"
  localFiles :: "string \<Rightarrow> bytes option"
  fetch :: "string \<Rightarrow> response"

datatype error =
    CopyFileError string
  | FetchError string
  | StreamError string
  | InvalidURL string
  | TypeError string

datatype file_content = Asset bytes | Document json

text \<open>
  The state the build script changes: its \<open>downloads\<close> array, the number of UUIDs
  drawn so far, the files of the output directory, the temporary folders made so far
  and those that still exist, the console, and the calls made to \<open>fetch\<close> and
  \<open>copyFileSync\<close>.
\<close>

record state =
  downloads :: "download list"
  uuid_next :: nat
  outDir :: "string \<rightharpoonup> file_content"
  temp_next :: nat
  temp_live :: "nat list"
  console :: "string list"
  fetched :: "string list"
  copied :: "string list"

section \<open>JavaScript primitives\<close>

text \<open>Truthiness of a string, and of a value that is a string or \<open>null\<close>/\<open>undefined\<close>.\<close>

definition truthy :: "string option \<Rightarrow> bool" where
  "truthy v = (case v of None \<Rightarrow> False | Some s \<Rightarrow> s \<noteq> [])"

text \<open>\<open>a < b\<close> on values that are strings or \<open>undefined\<close>: false when either is \<open>undefined\<close>.\<close>

definition js_lt :: "string option \<Rightarrow> string option \<Rightarrow> bool" where
  "js_lt a b = (case (a, b) of (Some x, Some y) \<Rightarrow> x < y | _ \<Rightarrow> False)"

text \<open>
  \<open>Array.prototype.sort\<close> is stable. It is modelled as a stable insertion sort. For a
  comparator that is a total preorder on the elements of the array every stable sort
  returns this list, and the model is exact. For any other comparator the standard only
  promises a permutation and the result depends on the engine: there the model gives one
  such permutation, which need not be the engine's, and the properties below use of it
  only that it is a permutation, except where a run is evaluated on a short array that
  the engine leaves in the same order.
\<close>

fun insert_by :: "('a \<Rightarrow> 'a \<Rightarrow> int) \<Rightarrow> 'a \<Rightarrow> 'a list \<Rightarrow> 'a list" where
  "insert_by cmp x [] = [x]"
| "insert_by cmp x (y # ys) =
     (if cmp x y \<le> 0 then x # y # ys else y # insert_by cmp x ys)"

definition array_sort :: "('a \<Rightarrow> 'a \<Rightarrow> int) \<Rightarrow> 'a list \<Rightarrow> 'a list" where
  "array_sort cmp xs = foldr (insert_by cmp) xs []"

text \<open>The default comparator of \<open>sort()\<close> on an array of strings.\<close>

definition compare_strings :: "string \<Rightarrow> string \<Rightarrow> int" where
  "compare_strings a b = (if a < b then - 1 else if b < a then 1 else 0)"

definition array_sort_default :: "string list \<Rightarrow> string list" where
  "array_sort_default xs = array_sort compare_strings xs"

section \<open>The build script\<close>

definition version :: "env \<Rightarrow> string" where
  "version e = (if truthy (env_VERSION e) then the (env_VERSION e) else ''0.0.0'')"

definition urlPrefix :: "env \<Rightarrow> string" where
  "urlPrefix e =
     (if truthy (env_URL_PREFIX e) then the (env_URL_PREFIX e) else ''https://example.com/'')"

definition sortByDownloadID :: "installation \<Rightarrow> installation \<Rightarrow> int" where
  "sortByDownloadID a b =
     (if i_type a < i_type b then - 1
      else if i_type b < i_type a then 1
      else if js_lt (i_download a) (i_download b) then - 1
      else if js_lt (i_download b) (i_download a) then 1
      else 0)"

definition sortByName :: "font \<Rightarrow> font \<Rightarrow> int" where
  "sortByName a b = (if f_name a < f_name b then - 1 else if f_name b < f_name a then 1 else 0)"

definition sortById :: "download_out \<Rightarrow> download_out \<Rightarrow> int" where
  "sortById a b = (if o_id a < o_id b then - 1 else if o_id b < o_id a then 1 else 0)"

definition font :: "font \<Rightarrow> font" where
  "font i =
     \<lparr> f_id = f_id i, f_name = f_name i, f_shortName = f_shortName i,
       f_publisher = f_publisher i,
       f_categories = array_sort_default (f_categories i),
       f_installations = array_sort sortByDownloadID (f_installations i),
       f_other = [] \<rparr>"

definition computeFileHash :: "env \<Rightarrow> bytes \<Rightarrow> string" where
  "computeFileHash e content = sha256hex e content"

fun downloadExistsLocalFile :: "env \<Rightarrow> download list \<Rightarrow> string \<Rightarrow> string option" where
  "downloadExistsLocalFile e [] localFile = None"
| "downloadExistsLocalFile e (d # ds) localFile =
     (if d_type d = ''localFile'' \<and> d_localFile d = Some (normalize e localFile)
      then Some (d_id d)
      else downloadExistsLocalFile e ds localFile)"

fun downloadExistsURL :: "env \<Rightarrow> download list \<Rightarrow> string \<Rightarrow> error + string option" where
  "downloadExistsURL e [] url = Inr None"
| "downloadExistsURL e (d # ds) url =
     (if d_type d = ''url'' then
        (case normalizeUrl e url of
           None \<Rightarrow> Inl (InvalidURL url)
         | Some n \<Rightarrow>
             if d_url d = Some n then Inr (Some (d_id d))
             else downloadExistsURL e ds url)
      else downloadExistsURL e ds url)"

definition addLocalFileDownload :: "env \<Rightarrow> string \<Rightarrow> state \<Rightarrow> (error + string) \<times> state" where
  "addLocalFileDownload e localFile s =
     (let ident = randomUUID e (uuid_next s);
          s1 = s\<lparr>uuid_next := Suc (uuid_next s)\<rparr>;
          extension = extname e localFile;
          s2 = s1\<lparr>copied := copied s1 @ [localFile]\<rparr>
      in case localFiles e localFile of
           None \<Rightarrow> (Inl (CopyFileError localFile), s2)
         | Some content \<Rightarrow>
             (Inr ident,
              s2\<lparr>outDir := (outDir s2)(ident @ extension \<mapsto> Asset content),
                 downloads := downloads s2 @
                   [\<lparr> d_id = ident,
                      d_downloadURL = urlPrefix e @ encodeURIComponent e (ident @ extension),
                      d_fileSize = length content,
                      d_hash = computeFileHash e content,
                      d_type = ''localFile'',
                      d_localFile = Some (normalize e localFile),
                      d_url = None \<rparr>]\<rparr>))"

definition addURLDownload :: "env \<Rightarrow> string \<Rightarrow> state \<Rightarrow> (error + string) \<times> state" where
  "addURLDownload e url s =
     (let tempFolder = temp_next s;
          s1 = s\<lparr>temp_next := Suc (temp_next s), temp_live := temp_live s @ [tempFolder]\<rparr>;
          ident = randomUUID e (uuid_next s1);
          s2 = s1\<lparr>uuid_next := Suc (uuid_next s1)\<rparr>;
          s3 = s2\<lparr>fetched := fetched s2 @ [url]\<rparr>
      in case fetch e url of
           Rejected err \<Rightarrow>
             (Inl (FetchError err),
              s3\<lparr>console := console s3 @ [''Failed to download file from URL: '' @ url]\<rparr>)
         | Response status body \<Rightarrow>
             (case body of
                Inl err \<Rightarrow> (Inl (StreamError err), s3)
              | Inr content \<Rightarrow>
                  (case normalizeUrl e url of
                     None \<Rightarrow> (Inl (InvalidURL url), s3)
                   | Some n \<Rightarrow>
                       (Inr ident,
                        s3\<lparr>downloads := downloads s3 @
                             [\<lparr> d_id = ident,
                                d_downloadURL = url,
                                d_fileSize = length content,
                                d_hash = computeFileHash e content,
                                d_type = ''url'',
                                d_localFile = None,
                                d_url = Some n \<rparr>],
                           temp_live := removeAll tempFolder (temp_live s3)\<rparr>))))"

text \<open>The final clean-up of \<open>addFromObject\<close>: a field is deleted when its value is truthy.\<close>

definition cleanUp :: "string option \<Rightarrow> string option \<Rightarrow> installation \<Rightarrow> installation" where
  "cleanUp localPath url obj =
     (let obj1 = (if truthy localPath then obj\<lparr>i_localPath := None\<rparr> else obj)
      in if truthy url then obj1\<lparr>i_url := None\<rparr> else obj1)"

definition addFromObject :: "env \<Rightarrow> installation \<Rightarrow> state \<Rightarrow> (error + installation) \<times> state" where
  "addFromObject e obj s =
     (let localPath = i_localPath obj; url = i_url obj
      in case localPath of
           Some lp \<Rightarrow>
             (let ident = downloadExistsLocalFile e (downloads s) lp
              in if truthy ident then (Inr (cleanUp localPath url (obj\<lparr>i_download := ident\<rparr>)), s)
                 else (case addLocalFileDownload e lp s of
                         (Inl err, s') \<Rightarrow> (Inl err, s')
                       | (Inr new, s') \<Rightarrow>
                           (Inr (cleanUp localPath url (obj\<lparr>i_download := Some new\<rparr>)), s')))
         | None \<Rightarrow>
             (case url of
                Some u \<Rightarrow>
                  (case downloadExistsURL e (downloads s) u of
                     Inl err \<Rightarrow> (Inl err, s)
                   | Inr ident \<Rightarrow>
                       if truthy ident then (Inr (cleanUp localPath url (obj\<lparr>i_download := ident\<rparr>)), s)
                       else (case addURLDownload e u s of
                               (Inl err, s') \<Rightarrow> (Inl err, s')
                             | (Inr new, s') \<Rightarrow>
                                 (Inr (cleanUp localPath url (obj\<lparr>i_download := Some new\<rparr>)), s')))
              | None \<Rightarrow> (Inr (cleanUp localPath url obj), s)))"

text \<open>The \<open>switch\<close> of the inner loop: the files of a \<open>cabextract\<close> installation are sorted.\<close>

definition sortFiles :: "installation \<Rightarrow> error + installation" where
  "sortFiles obj =
     (if i_type obj = ''cabextract'' then
        (case i_files obj of
           None \<Rightarrow> Inl (TypeError ''files'')
         | Some fs \<Rightarrow> Inr (obj\<lparr>i_files := Some (array_sort_default fs)\<rparr>))
      else Inr obj)"

text \<open>The inner loop over the installations of one font.\<close>

fun compileInstallations ::
  "env \<Rightarrow> installation list \<Rightarrow> state \<Rightarrow> (error + installation list) \<times> state" where
  "compileInstallations e [] s = (Inr [], s)"
| "compileInstallations e (obj # objs) s =
     (case addFromObject e obj s of
        (Inl err, s') \<Rightarrow> (Inl err, s')
      | (Inr obj', s') \<Rightarrow>
          (case sortFiles obj' of
             Inl err \<Rightarrow> (Inl err, s')
           | Inr obj'' \<Rightarrow>
               (case compileInstallations e objs s' of
                  (Inl err, s'') \<Rightarrow> (Inl err, s'')
                | (Inr objs', s'') \<Rightarrow> (Inr (obj'' # objs'), s''))))"

text \<open>The outer loop over the fonts.\<close>

fun compileFonts :: "env \<Rightarrow> font list \<Rightarrow> state \<Rightarrow> (error + font list) \<times> state" where
  "compileFonts e [] s = (Inr [], s)"
| "compileFonts e (f # fs) s =
     (case compileInstallations e (f_installations f) s of
        (Inl err, s') \<Rightarrow> (Inl err, s')
      | (Inr objs, s') \<Rightarrow>
          (case compileFonts e fs s' of
             (Inl err, s'') \<Rightarrow> (Inl err, s'')
           | (Inr fs', s'') \<Rightarrow>
               (Inr (f\<lparr>f_installations := array_sort sortByDownloadID objs\<rparr> # fs'), s'')))"

definition stripDownload :: "download \<Rightarrow> download_out" where
  "stripDownload d =
     \<lparr> o_id = d_id d, o_downloadURL = d_downloadURL d,
       o_fileSize = d_fileSize d, o_hash = d_hash d \<rparr>"

text \<open>
  \<open>JSON.stringify\<close> of the manifest, up to the concrete syntax. The keys of an
  installation come in the order of insertion, for an installation that the catalog
  writes as type, reference, files, other attributes: \<open>download\<close>, which the script
  adds, is the last.
\<close>

definition stringifyInstallation :: "installation \<Rightarrow> json" where
  "stringifyInstallation i =
     JObject ([(''type'', JString (i_type i))]
       @ (case i_localPath i of None \<Rightarrow> [] | Some p \<Rightarrow> [(''_localPath'', JString p)])
       @ (case i_url i of None \<Rightarrow> [] | Some u \<Rightarrow> [(''_url'', JString u)])
       @ (case i_files i of None \<Rightarrow> [] | Some fs \<Rightarrow> [(''files'', JArray (map JString fs))])
       @ i_other i
       @ (case i_download i of None \<Rightarrow> [] | Some d \<Rightarrow> [(''download'', JString d)]))"

definition stringifyFont :: "font \<Rightarrow> json" where
  "stringifyFont f =
     JObject ([(''id'', JString (f_id f)), (''name'', JString (f_name f)),
               (''shortName'', JString (f_shortName f)),
               (''publisher'', JString (f_publisher f)),
               (''categories'', JArray (map JString (f_categories f))),
               (''installations'', JArray (map stringifyInstallation (f_installations f)))]
       @ f_other f)"

definition stringifyDownload :: "download_out \<Rightarrow> json" where
  "stringifyDownload d =
     JObject [(''id'', JString (o_id d)), (''downloadURL'', JString (o_downloadURL d)),
              (''fileSize'', JNumber (o_fileSize d)), (''hash'', JString (o_hash d))]"

definition stringifyManifest :: "manifest \<Rightarrow> json" where
  "stringifyManifest m =
     JObject [(''version'', JString (m_version m)),
              (''downloads'', JArray (map stringifyDownload (m_downloads m))),
              (''fonts'', JArray (map stringifyFont (m_fonts m)))]"

definition initial :: state where
  "initial =
     \<lparr> downloads = [], uuid_next = 0, outDir = Map.empty, temp_next = 0, temp_live = [],
       console = [], fetched = [], copied = [] \<rparr>"

text \<open>
  \<open>main\<close> of the build script. Its first step makes the output directory empty,
  whether it existed or not, so the run starts from \<open>initial\<close> whatever the directory
  held before (\<open>dist\<close>, \<open>None\<close> when it did not exist). The result is the manifest,
  or the error with which the process exits with status 1.
\<close>

definition main :: "env \<Rightarrow> (string \<rightharpoonup> file_content) option \<Rightarrow> catalog \<Rightarrow> (error + manifest) \<times> state" where
  "main e dist fonts =
     (let s0 = initial\<lparr>outDir := (case dist of None \<Rightarrow> Map.empty | Some old \<Rightarrow> Map.empty)\<rparr>
      in case compileFonts e (c_fonts fonts) s0 of
           (Inl err, s') \<Rightarrow> (Inl err, s')
         | (Inr fs, s') \<Rightarrow>
             (let m = \<lparr> m_version = version e,
                        m_downloads = array_sort sortById (map stripDownload (downloads s')),
                        m_fonts = map font (array_sort sortByName fs) \<rparr>
              in (Inr m, s'\<lparr>outDir := (outDir s')(''fonts.json'' \<mapsto> Document (stringifyManifest m))\<rparr>)))"

section \<open>The formatting script \<open>utils/format.js\<close>\<close>

definition sortByTypeThenLocalPathOrURL :: "installation \<Rightarrow> installation \<Rightarrow> int" where
  "sortByTypeThenLocalPathOrURL a b =
     (if i_type a < i_type b then - 1
      else if i_type b < i_type a then 1
      else
        (let aDownload = (if i_localPath a \<noteq> None then ''localpath'' else ''url'');
             bDownload = (if i_localPath b \<noteq> None then ''localpath'' else ''url'')
         in if aDownload = ''url'' \<and> bDownload = ''localpath'' then - 1
            else if aDownload = ''localpath'' \<and> bDownload = ''url'' then 1
            else
              (let aSort = (if aDownload = ''url'' then i_url a else i_localPath a);
                   bSort = (if bDownload = ''url'' then i_url b else i_localPath b)
               in if js_lt aSort bSort then - 1
                  else if js_lt bSort aSort then 1
                  else 0)))"

text \<open>The \<open>font\<close> function of \<open>format.js\<close>.\<close>

definition format_font :: "font \<Rightarrow> font" where
  "format_font i =
     \<lparr> f_id = f_id i, f_name = f_name i, f_shortName = f_shortName i,
       f_publisher = f_publisher i,
       f_categories = array_sort_default (f_categories i),
       f_installations = array_sort sortByTypeThenLocalPathOrURL (f_installations i),
       f_other = [] \<rparr>"

text \<open>\<open>sortByName\<close> applied to the groups.\<close>

definition sortGroupsByName :: "group \<Rightarrow> group \<Rightarrow> int" where
  "sortGroupsByName a b =
     (if g_name a < g_name b then - 1 else if g_name b < g_name a then 1 else 0)"

text \<open>The loop over the installations (\<open>source\<close>) of one font.\<close>

fun sortSourceFiles :: "installation list \<Rightarrow> error + installation list" where
  "sortSourceFiles [] = Inr []"
| "sortSourceFiles (source # rest) =
     (case sortFiles source of
        Inl err \<Rightarrow> Inl err
      | Inr source' \<Rightarrow>
          (case sortSourceFiles rest of
             Inl err \<Rightarrow> Inl err
           | Inr rest' \<Rightarrow> Inr (source' # rest')))"

text \<open>
  The loop over the fonts. Every UUID drawn is pushed to \<open>uuids\<close>, so the number of
  UUIDs drawn so far is the length of \<open>uuids\<close>.
\<close>

fun formatFonts :: "env \<Rightarrow> font list \<Rightarrow> string list \<Rightarrow> error + (font list \<times> string list)" where
  "formatFonts e [] uuids = Inr ([], uuids)"
| "formatFonts e (f # fs) uuids =
     (let f1 = (if f_id f = ''<UUID>'' then f\<lparr>f_id := randomUUID e (length uuids)\<rparr> else f);
          uuids1 = (if f_id f = ''<UUID>'' then uuids @ [f_id f1] else uuids)
      in case sortSourceFiles (array_sort sortByTypeThenLocalPathOrURL (f_installations f1)) of
           Inl err \<Rightarrow> Inl err
         | Inr sources \<Rightarrow>
             (case formatFonts e fs uuids1 of
                Inl err \<Rightarrow> Inl err
              | Inr (fs', uuids') \<Rightarrow> Inr (f1\<lparr>f_installations := sources\<rparr> # fs', uuids')))"

text \<open>
  \<open>main\<close> of \<open>format.js\<close>: the catalog written back to \<open>fonts.json\<close> and, when it
  is written, the content of \<open>newUUIDs.json\<close>.
\<close>

definition format_main :: "env \<Rightarrow> catalog \<Rightarrow> error + (catalog \<times> string list option)" where
  "format_main e fonts =
     (case formatFonts e (c_fonts fonts) [] of
        Inl err \<Rightarrow> Inl err
      | Inr (fs, uuids) \<Rightarrow>
          (case c_groups fonts of
             None \<Rightarrow> Inl (TypeError ''groups'')
           | Some gs \<Rightarrow>
               Inr (fonts\<lparr>c_fonts := map format_font (array_sort sortByName fs),
                          c_groups := Some (array_sort sortGroupsByName
                            (map (\<lambda>g. g\<lparr>g_fonts := array_sort_default (g_fonts g)\<rparr>) gs))\<rparr>,
                    if length uuids > 1 then Some uuids else None)))"

section \<open>Notions used to state the properties\<close>

text \<open>
  The canonical identity key of the dependency of an installation: its normalized local
  path or, when it has no local path, its normalized URL. The two kinds are kept apart, as
  the \<open>_type\<close> of a download keeps them apart. An installation with neither, or with a
  URL that \<open>normalize-url\<close> rejects, has no key.
\<close>

datatype key = LocalFileKey string | UrlKey string

definition canonicalKey :: "env \<Rightarrow> installation \<Rightarrow> key option" where
  "canonicalKey e i =
     (case i_localPath i of
        Some p \<Rightarrow> Some (LocalFileKey (normalize e p))
      | None \<Rightarrow>
          (case i_url i of
             Some u \<Rightarrow> map_option UrlKey (normalizeUrl e u)
           | None \<Rightarrow> None))"

text \<open>
  The download id that the array \<open>ds\<close> holds for an installation: what the look-up of
  \<open>addFromObject\<close> finds for its reference in \<open>ds\<close>. An installation with no
  reference keeps the \<open>download\<close> field it has.
\<close>

definition assigned :: "env \<Rightarrow> download list \<Rightarrow> installation \<Rightarrow> string option" where
  "assigned e ds i =
     (case i_localPath i of
        Some p \<Rightarrow> downloadExistsLocalFile e ds p
      | None \<Rightarrow>
          (case i_url i of
             Some u \<Rightarrow> (case downloadExistsURL e ds u of Inl err \<Rightarrow> None | Inr r \<Rightarrow> r)
           | None \<Rightarrow> i_download i))"

text \<open>
  The installation and the font that the build script makes of an installation and of a
  font of the catalog, given the \<open>downloads\<close> array at the end of the run.
\<close>

definition compiledInstallation :: "env \<Rightarrow> download list \<Rightarrow> installation \<Rightarrow> installation" where
  "compiledInstallation e ds i =
     (let obj = cleanUp (i_localPath i) (i_url i) (i\<lparr>i_download := assigned e ds i\<rparr>)
      in if i_type obj = ''cabextract''
         then obj\<lparr>i_files := map_option array_sort_default (i_files obj)\<rparr>
         else obj)"

definition compiledFont :: "env \<Rightarrow> download list \<Rightarrow> font \<Rightarrow> font" where
  "compiledFont e ds f =
     f\<lparr>f_installations :=
         array_sort sortByDownloadID (map (compiledInstallation e ds) (f_installations f))\<rparr>"

text \<open>All installations of a catalog, in the order of the traversal.\<close>

definition installationsOf :: "catalog \<Rightarrow> installation list" where
  "installationsOf c = concat (map f_installations (c_fonts c))"

text \<open>
  The first \<open>n\<close> results of \<open>randomUUID\<close> are pairwise distinct and have the 36
  characters of a UUID.
\<close>

definition uuids_ok :: "env \<Rightarrow> nat \<Rightarrow> bool" where
  "uuids_ok e n =
     (distinct (map (randomUUID e) [0..<n]) \<and> (\<forall>k\<in>set [0..<n]. length (randomUUID e k) = 36))"

text \<open>Where a record of the \<open>downloads\<close> array comes from.\<close>

definition localProvenance ::
  "env \<Rightarrow> string \<Rightarrow> bytes \<Rightarrow> (string \<rightharpoonup> file_content) \<Rightarrow> download \<Rightarrow> bool" where
  "localProvenance e p c dir d =
     (localFiles e p = Some c
      \<and> d_type d = ''localFile'' \<and> d_localFile d = Some (normalize e p) \<and> d_url d = None
      \<and> d_downloadURL d = urlPrefix e @ encodeURIComponent e (d_id d @ extname e p)
      \<and> d_fileSize d = length c \<and> d_hash d = sha256hex e c
      \<and> dir (d_id d @ extname e p) = Some (Asset c))"

definition urlProvenance :: "env \<Rightarrow> string \<Rightarrow> nat \<Rightarrow> bytes \<Rightarrow> download \<Rightarrow> bool" where
  "urlProvenance e u status c d =
     (fetch e u = Response status (Inr c)
      \<and> d_type d = ''url'' \<and> d_url d = normalizeUrl e u \<and> normalizeUrl e u \<noteq> None
      \<and> d_localFile d = None \<and> d_downloadURL d = u
      \<and> d_fileSize d = length c \<and> d_hash d = sha256hex e c)"

definition provenance :: "env \<Rightarrow> state \<Rightarrow> download \<Rightarrow> bool" where
  "provenance e s d =
     ((\<exists>p\<in>set (copied s). \<exists>c. localProvenance e p c (outDir s) d)
      \<or> (\<exists>u\<in>set (fetched s). \<exists>status c. urlProvenance e u status c d))"

text \<open>
  The invariant of the traversal: the ids of the \<open>downloads\<close> array are the UUIDs drawn,
  in order; the local paths copied and the URLs fetched are, normalized, the keys of its
  records, without repetition; and every record has its provenance.
\<close>

definition registry_inv :: "env \<Rightarrow> state \<Rightarrow> bool" where
  "registry_inv e s =
     (map d_id (downloads s) = map (randomUUID e) [0..<uuid_next s]
      \<and> map (\<lambda>p. Some (normalize e p)) (copied s)
          = map d_localFile (filter (\<lambda>d. d_type d = ''localFile'') (downloads s))
      \<and> map (normalizeUrl e) (fetched s)
          = map d_url (filter (\<lambda>d. d_type d = ''url'') (downloads s))
      \<and> distinct (map (normalize e) (copied s))
      \<and> distinct (map (normalizeUrl e) (fetched s))
      \<and> (\<forall>d\<in>set (downloads s). provenance e s d))"

text \<open>A later state of the same run: the \<open>downloads\<close> array has only grown.\<close>

definition extends :: "state \<Rightarrow> state \<Rightarrow> bool" where
  "extends s s' = ((\<exists>ds. downloads s' = downloads s @ ds) \<and> uuid_next s \<le> uuid_next s')"

text \<open>An installation with a dependency reference has its download in the array.\<close>

definition resolved :: "env \<Rightarrow> download list \<Rightarrow> installation \<Rightarrow> bool" where
  "resolved e ds i = (i_localPath i = None \<and> i_url i = None \<or> assigned e ds i \<noteq> None)"


text \<open>
  Everything in the output directory is the copy of a local file that an installation of
  \<open>objs\<close> names, and every path copied and every URL fetched is named by one of them.
\<close>

definition sourced :: "env \<Rightarrow> installation list \<Rightarrow> state \<Rightarrow> bool" where
  "sourced e objs s =
     ((\<forall>name x. outDir s name = Some x \<longrightarrow>
         (\<exists>i\<in>set objs. \<exists>p c. i_localPath i = Some p \<and> localFiles e p = Some c \<and> x = Asset c))
      \<and> (\<forall>p\<in>set (copied s). \<exists>i\<in>set objs. i_localPath i = Some p)
      \<and> (\<forall>u\<in>set (fetched s). \<exists>i\<in>set objs. i_localPath i = None \<and> i_url i = Some u))"


text \<open>
  A catalog up to the order of its arrays: the fonts, the categories, installations and
  files of a font, the groups and the fonts of a group are taken as multisets.
\<close>

definition unorderedInstallation ::
  "installation \<Rightarrow> string \<times> string option \<times> string option \<times> string option
      \<times> string multiset option \<times> (string \<times> json) list" where
  "unorderedInstallation i =
     (i_type i, i_localPath i, i_url i, i_download i, map_option mset (i_files i), i_other i)"

definition unorderedFont ::
  "font \<Rightarrow> string \<times> string \<times> string \<times> string \<times> string multiset
      \<times> (string \<times> string option \<times> string option \<times> string option
          \<times> string multiset option \<times> (string \<times> json) list) multiset
      \<times> (string \<times> json) list" where
  "unorderedFont f =
     (f_id f, f_name f, f_shortName f, f_publisher f, mset (f_categories f),
      mset (map unorderedInstallation (f_installations f)), f_other f)"

definition unorderedGroup :: "group \<Rightarrow> string \<times> string multiset \<times> (string \<times> json) list" where
  "unorderedGroup g = (g_name g, mset (g_fonts g), g_other g)"

definition unorderedCatalog where
  "unorderedCatalog c =
     (mset (map unorderedFont (c_fonts c)),
      map_option (\<lambda>gs. mset (map unorderedGroup gs)) (c_groups c),
      c_other c)"

text \<open>
  The fonts of a catalog with every sentinel id replaced by the next UUID drawn, \<open>n\<close>
  UUIDs having been drawn before.
\<close>

fun replaceSentinels :: "env \<Rightarrow> nat \<Rightarrow> font list \<Rightarrow> font list" where
  "replaceSentinels e n [] = []"
| "replaceSentinels e n (f # fs) =
     (if f_id f = ''<UUID>''
      then f\<lparr>f_id := randomUUID e n\<rparr> # replaceSentinels e (Suc n) fs
      else f # replaceSentinels e n fs)"

section \<open>A concrete environment and concrete catalogs\<close>

text \<open>
  The properties below are instantiated on this environment: two local spellings of one
  file, two spellings of one URL, a URL the server answers with status 404, and any other
  URL unreachable. The digest is a stand-in for SHA-256.
\<close>

definition example_uuid :: "nat \<Rightarrow> string" where
  "example_uuid n =
     (if n = 0 then ''3b241101-e2bb-4255-8caf-4136c566a962''
      else if n = 1 then ''9f1c7a52-0d6e-4c1b-a5b3-7e2d4f6a8b90''
      else ''c0ffee00-1234-4abc-9def-0123456789ab'')"

definition example_env :: env where
  "example_env =
     \<lparr> env_VERSION = Some ''1.0.0'',
       env_URL_PREFIX = None,
       randomUUID = example_uuid,
       normalize = (\<lambda>p. if take 2 p = ''./'' then drop 2 p else p),
       normalizeUrl = (\<lambda>u. if u = [] then None
                            else if u = ''HTTP://Example.com/f'' then Some ''http://example.com/f''
                            else Some u),
       extname = (\<lambda>p. drop (length p - 4) p),
       encodeURIComponent = (\<lambda>s. s),
       sha256hex = (\<lambda>b. replicate (length b) CHR ''a''),
       localFiles = (\<lambda>p. if p = ''a.exe'' \<or> p = ''./a.exe'' then Some [77, 90, 1] else None),
       fetch = (\<lambda>u. if u = ''http://example.com/f'' \<or> u = ''HTTP://Example.com/f''
                       then Response 200 (Inr [7, 7])
                     else if u = ''http://example.com/missing''
                       then Response 404 (Inr [78, 111, 116])
                     else Rejected ''ENOTFOUND'') \<rparr>"

definition cab :: "string option \<Rightarrow> string option \<Rightarrow> string list \<Rightarrow> installation" where
  "cab localPath url fs =
     \<lparr> i_type = ''cabextract'', i_localPath = localPath, i_url = url, i_download = None,
       i_files = Some fs, i_other = [] \<rparr>"

definition example_font :: "string \<Rightarrow> installation list \<Rightarrow> font" where
  "example_font name objs =
     \<lparr> f_id = ''id-of-'' @ name, f_name = name, f_shortName = name, f_publisher = ''Microsoft'',
       f_categories = [''sans-serif'', ''monospace''], f_installations = objs,
       f_other = [(''license'', JString ''EULA'')] \<rparr>"

definition example_catalog :: catalog where
  "example_catalog =
     \<lparr> c_fonts =
         [example_font ''Verdana'' [cab None (Some ''HTTP://Example.com/f'') [''b.ttf'', ''a.ttf'']],
          example_font ''Arial''
            [cab None (Some ''http://example.com/f'') [''arial.ttf''],
             cab (Some ''./a.exe'') None [''z.ttf'', ''y.ttf''],
             cab (Some ''a.exe'') None [''x.ttf'']]],
       c_groups = Some [\<lparr> g_name = ''Core Fonts'', g_fonts = [''id-of-Verdana'', ''id-of-Arial''],
                          g_other = [] \<rparr>],
       c_other = [] \<rparr>"

text \<open>One installation whose URL the server answers with status 404.\<close>

definition catalog_http_404 :: catalog where
  "catalog_http_404 =
     \<lparr> c_fonts = [example_font ''Arial''
                    [cab None (Some ''http://example.com/missing'') [''arial.ttf'']]],
       c_groups = Some [], c_other = [] \<rparr>"

text \<open>A local file, then a URL that cannot be reached.\<close>

definition catalog_unreachable :: catalog where
  "catalog_unreachable =
     \<lparr> c_fonts = [example_font ''Arial''
                    [cab (Some ''a.exe'') None [''arial.ttf''],
                     cab None (Some ''http://unreachable.example/x'') [''b.ttf'']]],
       c_groups = Some [], c_other = [] \<rparr>"

text \<open>
  An installation with a local path and an empty \<open>_url\<close>, and an installation with no
  dependency reference at all.
\<close>

definition catalog_odd_references :: catalog where
  "catalog_odd_references =
     \<lparr> c_fonts = [example_font ''Arial''
                    [cab (Some ''a.exe'') (Some []) [''arial.ttf''],
                     cab None None [''b.ttf'']]],
       c_groups = Some [], c_other = [] \<rparr>"

text \<open>The same environment, with the base URL prefix configured.\<close>

definition prefixed_env :: env where
  "prefixed_env = example_env\<lparr>env_URL_PREFIX := Some ''https://cdn.test/fonts/''\<rparr>"

text \<open>
  The same environment, with the first two UUIDs drawn in the other order: the first is
  the greater.
\<close>

definition swapped_env :: env where
  "swapped_env =
     example_env\<lparr>randomUUID :=
       (\<lambda>n. if n = 0 then example_uuid 1 else if n = 1 then example_uuid 0 else example_uuid n)\<rparr>"

text \<open>A font whose second installation has no dependency reference.\<close>

definition catalog_pass_through :: catalog where
  "catalog_pass_through =
     \<lparr> c_fonts = [example_font ''Arial''
                    [cab None (Some ''http://example.com/f'') [''arial.ttf''],
                     cab None None [''b.ttf''],
                     cab (Some ''a.exe'') None [''c.ttf'']]],
       c_groups = Some [], c_other = [] \<rparr>"

text \<open>A catalog as a contributor leaves it: a new font with the sentinel id, nothing sorted.\<close>

definition catalog_unformatted :: catalog where
  "catalog_unformatted =
     \<lparr> c_fonts =
         [(example_font ''Verdana''
             [cab (Some ''b.exe'') None [''b.ttf'', ''a.ttf''],
              cab None (Some ''http://example.com/f'') [''v.ttf'']])\<lparr>f_id := ''<UUID>'', f_other := []\<rparr>,
          (example_font ''Arial'' [cab (Some ''a.exe'') None [''arial.ttf'']])\<lparr>f_other := []\<rparr>],
       c_groups = Some [\<lparr> g_name = ''Web'', g_fonts = [''id-of-Verdana'', ''id-of-Arial''],
                          g_other = [] \<rparr>,
                        \<lparr> g_name = ''Core Fonts'', g_fonts = [''id-of-Arial''], g_other = [] \<rparr>],
       c_other = [(''schema'', JNumber 1)] \<rparr>"

section \<open>Properties of the sort\<close>

lemma mset_insert_by: "mset (insert_by cmp x xs) = add_mset x (mset xs)"
  by (induction xs) auto

lemma mset_array_sort: "mset (array_sort cmp xs) = mset xs"
  unfolding array_sort_def by (induction xs) (auto simp: mset_insert_by)

lemma set_array_sort: "set (array_sort cmp xs) = set xs"
  using mset_array_sort[of cmp xs] by (metis set_mset_mset)

lemma length_array_sort: "length (array_sort cmp xs) = length xs"
  using mset_array_sort[of cmp xs] by (metis size_mset)

lemma set_insert_by: "set (insert_by cmp x xs) = insert x (set xs)"
  by (induction xs) auto

text \<open>
  On a list whose elements the comparator orders totally and transitively, the result is
  sorted: no element is followed by one the comparator puts strictly before it.
\<close>

lemma sorted_insert_by:
  assumes total: "\<And>a b. a \<in> A \<Longrightarrow> b \<in> A \<Longrightarrow> cmp a b \<le> 0 \<or> cmp b a \<le> 0"
      and trans: "\<And>a b c. a \<in> A \<Longrightarrow> b \<in> A \<Longrightarrow> c \<in> A \<Longrightarrow>
                    cmp a b \<le> 0 \<Longrightarrow> cmp b c \<le> 0 \<Longrightarrow> cmp a c \<le> 0"
      and sub: "insert x (set xs) \<subseteq> A"
      and srt: "sorted_wrt (\<lambda>a b. cmp a b \<le> 0) xs"
  shows "sorted_wrt (\<lambda>a b. cmp a b \<le> 0) (insert_by cmp x xs)"
  using sub srt
proof (induction xs)
  case Nil
  then show ?case by simp
next
  case (Cons y ys)
  show ?case
  proof (cases "cmp x y \<le> 0")
    case True
    have "cmp x z \<le> 0" if "z \<in> set ys" for z
    proof -
      from Cons.prems(2) that have "cmp y z \<le> 0" by simp
      with True trans[of x y z] Cons.prems(1) that show ?thesis by auto
    qed
    with True Cons.prems(2) show ?thesis by simp
  next
    case False
    with total[of x y] Cons.prems(1) have "cmp y x \<le> 0" by auto
    moreover from Cons have "sorted_wrt (\<lambda>a b. cmp a b \<le> 0) (insert_by cmp x ys)" by simp
    ultimately show ?thesis using False Cons.prems(2) by (auto simp: set_insert_by)
  qed
qed

lemma sorted_array_sort:
  assumes total: "\<And>a b. a \<in> set xs \<Longrightarrow> b \<in> set xs \<Longrightarrow> cmp a b \<le> 0 \<or> cmp b a \<le> 0"
      and trans: "\<And>a b c. a \<in> set xs \<Longrightarrow> b \<in> set xs \<Longrightarrow> c \<in> set xs \<Longrightarrow>
                    cmp a b \<le> 0 \<Longrightarrow> cmp b c \<le> 0 \<Longrightarrow> cmp a c \<le> 0"
  shows "sorted_wrt (\<lambda>a b. cmp a b \<le> 0) (array_sort cmp xs)"
proof -
  have "set ys \<subseteq> set xs \<Longrightarrow> sorted_wrt (\<lambda>a b. cmp a b \<le> 0) (array_sort cmp ys)" for ys
  proof (induction ys)
    case Nil
    show ?case by (simp add: array_sort_def)
  next
    case (Cons y ys)
    have eq: "array_sort cmp (y # ys) = insert_by cmp y (array_sort cmp ys)"
      by (simp add: array_sort_def)
    from Cons.prems have sub: "insert y (set (array_sort cmp ys)) \<subseteq> set xs"
      by (simp add: set_array_sort)
    from Cons have srt: "sorted_wrt (\<lambda>a b. cmp a b \<le> 0) (array_sort cmp ys)" by simp
    show ?case unfolding eq
      by (rule sorted_insert_by[where A = "set xs", OF total trans sub srt])
  qed
  then show ?thesis by simp
qed

lemma sorted_array_sort_default: "sorted (array_sort_default xs)"
proof -
  have "sorted_wrt (\<lambda>a b. compare_strings a b \<le> 0) (array_sort compare_strings xs)"
    by (rule sorted_array_sort) (auto simp: compare_strings_def split: if_splits)
  moreover have "(\<lambda>a b. compare_strings a b \<le> 0) = (\<lambda>a b :: string. a \<le> b)"
    by (auto simp: compare_strings_def fun_eq_iff)
  ultimately show ?thesis by (simp add: array_sort_default_def)
qed

section \<open>The traversal of the build script\<close>


subsection \<open>Effects of the two resolvers\<close>

lemma addLocalFileDownload_Inr:
  assumes "addLocalFileDownload e p s = (Inr ident, s')"
  shows "\<exists>c. localFiles e p = Some c \<and> ident = randomUUID e (uuid_next s)
           \<and> s' = s\<lparr>uuid_next := Suc (uuid_next s), copied := copied s @ [p],
                    outDir := (outDir s)(ident @ extname e p \<mapsto> Asset c),
                    downloads := downloads s @
                      [\<lparr> d_id = ident,
                         d_downloadURL = urlPrefix e @ encodeURIComponent e (ident @ extname e p),
                         d_fileSize = length c, d_hash = sha256hex e c,
                         d_type = ''localFile'', d_localFile = Some (normalize e p),
                         d_url = None \<rparr>]\<rparr>"
  using assms
  by (auto simp: addLocalFileDownload_def computeFileHash_def Let_def split: option.splits)

lemma addLocalFileDownload_Inl:
  assumes "addLocalFileDownload e p s = (Inl err, s')"
  shows "localFiles e p = None \<and> err = CopyFileError p
           \<and> s' = s\<lparr>uuid_next := Suc (uuid_next s), copied := copied s @ [p]\<rparr>"
  using assms
  by (auto simp: addLocalFileDownload_def Let_def split: option.splits)

lemma addURLDownload_Inr:
  assumes "addURLDownload e u s = (Inr ident, s')"
  shows "\<exists>status c n. fetch e u = Response status (Inr c) \<and> normalizeUrl e u = Some n
           \<and> ident = randomUUID e (uuid_next s)
           \<and> s' = s\<lparr>temp_next := Suc (temp_next s),
                    temp_live := removeAll (temp_next s) (temp_live s @ [temp_next s]),
                    uuid_next := Suc (uuid_next s), fetched := fetched s @ [u],
                    downloads := downloads s @
                      [\<lparr> d_id = ident, d_downloadURL = u,
                         d_fileSize = length c, d_hash = sha256hex e c,
                         d_type = ''url'', d_localFile = None, d_url = Some n \<rparr>]\<rparr>"
  using assms
  by (auto simp: addURLDownload_def computeFileHash_def Let_def
           split: response.splits sum.splits option.splits)

lemma addURLDownload_Inl:
  assumes "addURLDownload e u s = (Inl err, s')"
  shows "downloads s' = downloads s \<and> uuid_next s' = Suc (uuid_next s)
           \<and> fetched s' = fetched s @ [u] \<and> copied s' = copied s \<and> outDir s' = outDir s
           \<and> temp_live s' = temp_live s @ [temp_next s] \<and> temp_next s' = Suc (temp_next s)"
  using assms
  by (auto simp: addURLDownload_def Let_def
           split: response.splits sum.splits option.splits)

subsection \<open>The two look-ups\<close>

lemma downloadExistsLocalFile_None:
  "downloadExistsLocalFile e ds p = None \<Longrightarrow>
   Some (normalize e p) \<notin> set (map d_localFile (filter (\<lambda>d. d_type d = ''localFile'') ds))"
  by (induction ds) (auto split: if_splits)

lemma downloadExistsLocalFile_Some:
  "downloadExistsLocalFile e ds p = Some x \<Longrightarrow> x \<in> set (map d_id ds)"
  by (induction ds) (auto split: if_splits)

lemma downloadExistsLocalFile_append:
  "downloadExistsLocalFile e ds p = Some x \<Longrightarrow> downloadExistsLocalFile e (ds @ ds2) p = Some x"
  by (induction ds) (auto split: if_splits)

lemma downloadExistsLocalFile_snoc:
  "downloadExistsLocalFile e ds p = None \<Longrightarrow> d_type d = ''localFile'' \<Longrightarrow>
   d_localFile d = Some (normalize e p) \<Longrightarrow>
   downloadExistsLocalFile e (ds @ [d]) p = Some (d_id d)"
  by (induction ds) (auto split: if_splits)

lemma downloadExistsLocalFile_key:
  "normalize e p = normalize e q \<Longrightarrow>
   downloadExistsLocalFile e ds p = downloadExistsLocalFile e ds q"
  by (induction ds) auto

lemma downloadExistsURL_None:
  "downloadExistsURL e ds u = Inr None \<Longrightarrow>
   normalizeUrl e u \<notin> set (map d_url (filter (\<lambda>d. d_type d = ''url'') ds))"
  by (induction ds) (auto split: if_splits option.splits)

lemma downloadExistsURL_Some:
  "downloadExistsURL e ds u = Inr (Some x) \<Longrightarrow> x \<in> set (map d_id ds)"
  by (induction ds) (auto split: if_splits option.splits)

lemma downloadExistsURL_append:
  "downloadExistsURL e ds u = Inr (Some x) \<Longrightarrow> downloadExistsURL e (ds @ ds2) u = Inr (Some x)"
  by (induction ds) (auto split: if_splits option.splits)

lemma downloadExistsURL_snoc:
  "downloadExistsURL e ds u = Inr None \<Longrightarrow> d_type d = ''url'' \<Longrightarrow>
   normalizeUrl e u = Some n \<Longrightarrow> d_url d = Some n \<Longrightarrow>
   downloadExistsURL e (ds @ [d]) u = Inr (Some (d_id d))"
  by (induction ds) (auto split: if_splits option.splits)

lemma downloadExistsURL_key:
  "normalizeUrl e u = Some n \<Longrightarrow> normalizeUrl e v = Some n \<Longrightarrow>
   downloadExistsURL e ds u = downloadExistsURL e ds v"
  by (induction ds) (auto split: option.splits)


subsection \<open>Case analysis of addFromObject\<close>


lemma addFromObject_local:
  "i_localPath obj = Some p \<Longrightarrow> addFromObject e obj s =
     (if truthy (downloadExistsLocalFile e (downloads s) p)
      then (Inr (cleanUp (Some p) (i_url obj)
                  (obj\<lparr>i_download := downloadExistsLocalFile e (downloads s) p\<rparr>)), s)
      else (case addLocalFileDownload e p s of
              (Inl err, s') \<Rightarrow> (Inl err, s')
            | (Inr new, s') \<Rightarrow>
                (Inr (cleanUp (Some p) (i_url obj) (obj\<lparr>i_download := Some new\<rparr>)), s')))"
  by (simp add: addFromObject_def Let_def)

lemma addFromObject_url:
  "i_localPath obj = None \<Longrightarrow> i_url obj = Some u \<Longrightarrow> addFromObject e obj s =
     (case downloadExistsURL e (downloads s) u of
        Inl err \<Rightarrow> (Inl err, s)
      | Inr r \<Rightarrow>
          if truthy r
          then (Inr (cleanUp None (Some u) (obj\<lparr>i_download := r\<rparr>)), s)
          else (case addURLDownload e u s of
                  (Inl err, s') \<Rightarrow> (Inl err, s')
                | (Inr new, s') \<Rightarrow>
                    (Inr (cleanUp None (Some u) (obj\<lparr>i_download := Some new\<rparr>)), s')))"
  by (simp add: addFromObject_def Let_def)

lemma addFromObject_neither:
  "i_localPath obj = None \<Longrightarrow> i_url obj = None \<Longrightarrow>
   addFromObject e obj s = (Inr (cleanUp (i_localPath obj) (i_url obj) obj), s)"
  by (simp add: addFromObject_def Let_def)


lemma truthy_Some: "truthy r \<Longrightarrow> \<exists>x. r = Some x"
  by (cases r) (auto simp: truthy_def)

lemma addFromObject_InrE:
  assumes run: "addFromObject e obj s = (Inr obj', s')"
  obtains
    (lfound) p x where "i_localPath obj = Some p"
      "downloadExistsLocalFile e (downloads s) p = Some x" "s' = s"
      "obj' = cleanUp (Some p) (i_url obj) (obj\<lparr>i_download := Some x\<rparr>)"
  | (ladd) p ident where "i_localPath obj = Some p"
      "\<not> truthy (downloadExistsLocalFile e (downloads s) p)"
      "addLocalFileDownload e p s = (Inr ident, s')"
      "obj' = cleanUp (Some p) (i_url obj) (obj\<lparr>i_download := Some ident\<rparr>)"
  | (ufound) u x where "i_localPath obj = None" "i_url obj = Some u"
      "downloadExistsURL e (downloads s) u = Inr (Some x)" "s' = s"
      "obj' = cleanUp None (Some u) (obj\<lparr>i_download := Some x\<rparr>)"
  | (uadd) u r ident where "i_localPath obj = None" "i_url obj = Some u"
      "downloadExistsURL e (downloads s) u = Inr r" "\<not> truthy r"
      "addURLDownload e u s = (Inr ident, s')"
      "obj' = cleanUp None (Some u) (obj\<lparr>i_download := Some ident\<rparr>)"
  | (neither) "i_localPath obj = None" "i_url obj = None" "s' = s"
      "obj' = cleanUp None None obj"
proof (cases "i_localPath obj")
  case (Some p)
  note eq = addFromObject_local[OF Some, of e s]
  show ?thesis
  proof (cases "truthy (downloadExistsLocalFile e (downloads s) p)")
    case True
    then obtain x where x: "downloadExistsLocalFile e (downloads s) p = Some x"
      using truthy_Some by blast
    from run eq True x have "s' = s"
      "obj' = cleanUp (Some p) (i_url obj) (obj\<lparr>i_download := Some x\<rparr>)"
      by simp_all
    with Some x show ?thesis by (rule lfound)
  next
    case False
    with run eq obtain ident where
      "addLocalFileDownload e p s = (Inr ident, s')"
      "obj' = cleanUp (Some p) (i_url obj) (obj\<lparr>i_download := Some ident\<rparr>)"
      by (auto split: prod.splits sum.splits)
    with Some False show ?thesis by (rule ladd)
  qed
next
  case None
  show ?thesis
  proof (cases "i_url obj")
    case n2: None
    from run addFromObject_neither[OF None n2, of e s] None n2
    have "s' = s" "obj' = cleanUp None None obj" by simp_all
    with None n2 show ?thesis by (rule neither)
  next
    case (Some u)
    note eq = addFromObject_url[OF None Some, of e s]
    from run eq obtain r where r: "downloadExistsURL e (downloads s) u = Inr r"
      by (auto split: sum.splits)
    show ?thesis
    proof (cases "truthy r")
      case True
      then obtain x where x: "r = Some x" using truthy_Some by blast
      from run eq r True x have "s' = s"
        "obj' = cleanUp None (Some u) (obj\<lparr>i_download := Some x\<rparr>)"
        by simp_all
      with None Some r[unfolded x] show ?thesis by (rule ufound)
    next
      case False
      with run eq r obtain ident where
        "addURLDownload e u s = (Inr ident, s')"
        "obj' = cleanUp None (Some u) (obj\<lparr>i_download := Some ident\<rparr>)"
        by (auto split: prod.splits sum.splits)
      with None Some r False show ?thesis by (rule uadd)
    qed
  qed
qed

lemma addFromObject_InlE:
  assumes run: "addFromObject e obj s = (Inl err, s')"
  obtains
    (ladd) p where "i_localPath obj = Some p"
      "\<not> truthy (downloadExistsLocalFile e (downloads s) p)"
      "addLocalFileDownload e p s = (Inl err, s')"
  | (ulook) u where "i_localPath obj = None" "i_url obj = Some u"
      "downloadExistsURL e (downloads s) u = Inl err" "s' = s"
  | (uadd) u r where "i_localPath obj = None" "i_url obj = Some u"
      "downloadExistsURL e (downloads s) u = Inr r" "\<not> truthy r"
      "addURLDownload e u s = (Inl err, s')"
proof (cases "i_localPath obj")
  case (Some p)
  note eq = addFromObject_local[OF Some, of e s]
  from run eq have nt: "\<not> truthy (downloadExistsLocalFile e (downloads s) p)"
    by (auto split: if_splits)
  with run eq have "addLocalFileDownload e p s = (Inl err, s')"
    by (auto split: prod.splits sum.splits)
  with Some nt show ?thesis by (rule ladd)
next
  case None
  show ?thesis
  proof (cases "i_url obj")
    case n2: None
    from run addFromObject_neither[OF None n2, of e s] show ?thesis by simp
  next
    case (Some u)
    note eq = addFromObject_url[OF None Some, of e s]
    show ?thesis
    proof (cases "downloadExistsURL e (downloads s) u")
      case (Inl err1)
      with run eq have "err1 = err" "s' = s" by simp_all
      with None Some Inl show ?thesis by (simp add: ulook)
    next
      case (Inr r)
      with run eq have nt: "\<not> truthy r" by (auto split: if_splits)
      with run eq Inr have "addURLDownload e u s = (Inl err, s')"
        by (auto split: prod.splits sum.splits)
      with None Some Inr nt show ?thesis by (rule uadd)
    qed
  qed
qed

subsection \<open>Lifting an invariant through the two loops\<close>

lemma compileInstallations_ok:
  assumes step: "\<forall>obj\<in>set objs. \<forall>s obj' s'. P s \<longrightarrow>
                   addFromObject e obj s = (Inr obj', s') \<longrightarrow> P s'"
      and "P s" and "compileInstallations e objs s = (Inr objs', s')"
  shows "P s'"
  using assms
proof (induction objs arbitrary: s objs')
  case Nil
  then show ?case by simp
next
  case (Cons obj objs)
  from Cons.prems(3) obtain o1 s1 o2 os where
    a: "addFromObject e obj s = (Inr o1, s1)" and
    c: "compileInstallations e objs s1 = (Inr os, s')"
    by (auto split: prod.splits sum.splits)
  from Cons.prems(1) Cons.prems(2) a have "P s1" by (meson list.set_intros(1))
  moreover from Cons.prems(1)
  have "\<forall>obj\<in>set objs. \<forall>s obj' s'. P s \<longrightarrow> addFromObject e obj s = (Inr obj', s') \<longrightarrow> P s'"
    by (meson list.set_intros(2))
  ultimately show ?case using Cons.IH[of s1 os] c by blast
qed

lemma compileInstallations_err:
  assumes step: "\<forall>obj\<in>set objs. \<forall>s obj' s'. P s \<longrightarrow>
                   addFromObject e obj s = (Inr obj', s') \<longrightarrow> P s'"
      and fail: "\<forall>obj\<in>set objs. \<forall>s err s'. P s \<longrightarrow>
                   addFromObject e obj s = (Inl err, s') \<longrightarrow> Q s'"
      and weak: "\<forall>s. P s \<longrightarrow> Q s"
      and "P s" and "compileInstallations e objs s = (Inl err, s')"
  shows "Q s'"
  using assms
proof (induction objs arbitrary: s)
  case Nil
  then show ?case by simp
next
  case (Cons obj objs)
  from Cons.prems(1)
  have step': "\<forall>obj\<in>set objs. \<forall>s obj' s'. P s \<longrightarrow> addFromObject e obj s = (Inr obj', s') \<longrightarrow> P s'"
    by (meson list.set_intros(2))
  from Cons.prems(2)
  have fail': "\<forall>obj\<in>set objs. \<forall>s err s'. P s \<longrightarrow> addFromObject e obj s = (Inl err, s') \<longrightarrow> Q s'"
    by (meson list.set_intros(2))
  show ?case
  proof (cases "addFromObject e obj s")
    case (Pair r s1)
    show ?thesis
    proof (cases r)
      case (Inl err1)
      with Pair Cons.prems(5) have "s' = s1" "err1 = err" by auto
      with Pair Inl Cons.prems(2) Cons.prems(4) show ?thesis by (meson list.set_intros(1))
    next
      case (Inr o1)
      with Pair Cons.prems(1) Cons.prems(4) have p1: "P s1" by (meson list.set_intros(1))
      show ?thesis
      proof (cases "sortFiles o1")
        case (Inl err2)
        with Pair Inr Cons.prems(5) have "s' = s1" by simp
        with p1 Cons.prems(3) show ?thesis by blast
      next
        case (Inr o2)
        with Pair \<open>r = Inr o1\<close> Cons.prems(5)
        have "compileInstallations e objs s1 = (Inl err, s')"
          by (auto split: prod.splits sum.splits)
        with Cons.IH[of s1, OF step' fail' Cons.prems(3) p1] show ?thesis by simp
      qed
    qed
  qed
qed

lemma compileFonts_ok:
  assumes step: "\<forall>obj\<in>set (concat (map f_installations fs)). \<forall>s obj' s'. P s \<longrightarrow>
                   addFromObject e obj s = (Inr obj', s') \<longrightarrow> P s'"
      and "P s" and "compileFonts e fs s = (Inr fs', s')"
  shows "P s'"
  using assms
proof (induction fs arbitrary: s fs')
  case Nil
  then show ?case by simp
next
  case (Cons f fs)
  from Cons.prems(3) obtain objs s1 fs1 where
    a: "compileInstallations e (f_installations f) s = (Inr objs, s1)" and
    c: "compileFonts e fs s1 = (Inr fs1, s')"
    by (auto split: prod.splits sum.splits)
  from Cons.prems(1)
  have here: "\<forall>obj\<in>set (f_installations f). \<forall>s obj' s'. P s \<longrightarrow>
                 addFromObject e obj s = (Inr obj', s') \<longrightarrow> P s'"
   and rest: "\<forall>obj\<in>set (concat (map f_installations fs)). \<forall>s obj' s'. P s \<longrightarrow>
                 addFromObject e obj s = (Inr obj', s') \<longrightarrow> P s'"
    by (simp_all only: set_concat set_map list.simps(9) concat.simps set_append ball_Un, blast+)
  have "P s1"
    by (rule compileInstallations_ok[where P = P, OF here Cons.prems(2) a])
  then show ?case using Cons.IH[of s1 fs1, OF rest _ c] by simp
qed

lemma compileFonts_err:
  assumes step: "\<forall>obj\<in>set (concat (map f_installations fs)). \<forall>s obj' s'. P s \<longrightarrow>
                   addFromObject e obj s = (Inr obj', s') \<longrightarrow> P s'"
      and fail: "\<forall>obj\<in>set (concat (map f_installations fs)). \<forall>s err s'. P s \<longrightarrow>
                   addFromObject e obj s = (Inl err, s') \<longrightarrow> Q s'"
      and weak: "\<forall>s. P s \<longrightarrow> Q s"
      and "P s" and "compileFonts e fs s = (Inl err, s')"
  shows "Q s'"
  using assms
proof (induction fs arbitrary: s)
  case Nil
  then show ?case by simp
next
  case (Cons f fs)
  from Cons.prems(1)
  have here: "\<forall>obj\<in>set (f_installations f). \<forall>s obj' s'. P s \<longrightarrow>
                 addFromObject e obj s = (Inr obj', s') \<longrightarrow> P s'"
   and rest: "\<forall>obj\<in>set (concat (map f_installations fs)). \<forall>s obj' s'. P s \<longrightarrow>
                 addFromObject e obj s = (Inr obj', s') \<longrightarrow> P s'"
    by (simp_all only: set_concat set_map list.simps(9) concat.simps set_append ball_Un, blast+)
  from Cons.prems(2)
  have hereF: "\<forall>obj\<in>set (f_installations f). \<forall>s err s'. P s \<longrightarrow>
                 addFromObject e obj s = (Inl err, s') \<longrightarrow> Q s'"
   and restF: "\<forall>obj\<in>set (concat (map f_installations fs)). \<forall>s err s'. P s \<longrightarrow>
                 addFromObject e obj s = (Inl err, s') \<longrightarrow> Q s'"
    by (simp_all only: set_concat set_map list.simps(9) concat.simps set_append ball_Un, blast+)
  show ?case
  proof (cases "compileInstallations e (f_installations f) s")
    case (Pair r s1)
    show ?thesis
    proof (cases r)
      case (Inl err1)
      with Pair Cons.prems(5) have c: "compileInstallations e (f_installations f) s = (Inl err, s')"
        by auto
      show ?thesis
        by (rule compileInstallations_err[where P = P and Q = Q,
                   OF here hereF Cons.prems(3) Cons.prems(4) c])
    next
      case (Inr objs)
      have p1: "P s1"
        by (rule compileInstallations_ok[where P = P, OF here Cons.prems(4) Pair[unfolded Inr]])
      from Pair Inr Cons.prems(5) have "compileFonts e fs s1 = (Inl err, s')"
        by (auto split: prod.splits sum.splits)
      with Cons.IH[of s1, OF rest restF Cons.prems(3) p1] show ?thesis by simp
    qed
  qed
qed


subsection \<open>The invariant of the downloads array\<close>

lemma uuids_ok_Suc: "uuids_ok e (Suc n) \<Longrightarrow> uuids_ok e n"
  by (auto simp: uuids_ok_def)

lemma uuids_ok_mono: "uuids_ok e n \<Longrightarrow> m \<le> n \<Longrightarrow> uuids_ok e m"
  by (induction n) (auto simp: le_Suc_eq dest: uuids_ok_Suc)

lemma uuids_ok_fresh:
  assumes "uuids_ok e (Suc n)" and "k < n"
  shows "randomUUID e k \<noteq> randomUUID e n"
proof -
  from assms(1) have "inj_on (randomUUID e) (set [0..<Suc n])"
    by (simp only: uuids_ok_def distinct_map)
  from inj_onD[OF this, of k n] assms(2) show ?thesis by auto
qed

lemma uuids_ok_length: "uuids_ok e n \<Longrightarrow> k < n \<Longrightarrow> length (randomUUID e k) = 36"
  by (auto simp: uuids_ok_def)

lemma registry_ids_truthy:
  assumes ids: "map d_id (downloads s) = map (randomUUID e) [0..<uuid_next s]"
      and ok: "uuids_ok e (uuid_next s)"
      and mem: "x \<in> set (map d_id (downloads s))"
  shows "truthy (Some x)"
proof -
  from mem ids obtain k where "k < uuid_next s" "x = randomUUID e k" by auto
  with ok have "length x = 36" by (simp add: uuids_ok_length)
  then show ?thesis by (auto simp: truthy_def)
qed

lemma lookup_local_not_truthy:
  assumes ids: "map d_id (downloads s) = map (randomUUID e) [0..<uuid_next s]"
      and ok: "uuids_ok e (uuid_next s)"
      and nt: "\<not> truthy (downloadExistsLocalFile e (downloads s) p)"
  shows "downloadExistsLocalFile e (downloads s) p = None"
proof (cases "downloadExistsLocalFile e (downloads s) p")
  case None
  then show ?thesis .
next
  case (Some x)
  then have "x \<in> set (map d_id (downloads s))" by (rule downloadExistsLocalFile_Some)
  with registry_ids_truthy[OF ids ok] nt Some show ?thesis by simp
qed

lemma lookup_url_not_truthy:
  assumes ids: "map d_id (downloads s) = map (randomUUID e) [0..<uuid_next s]"
      and ok: "uuids_ok e (uuid_next s)"
      and look: "downloadExistsURL e (downloads s) u = Inr r"
      and nt: "\<not> truthy r"
  shows "r = None"
proof (cases r)
  case None
  then show ?thesis .
next
  case (Some x)
  with look have "downloadExistsURL e (downloads s) u = Inr (Some x)" by simp
  then have "x \<in> set (map d_id (downloads s))" by (rule downloadExistsURL_Some)
  with registry_ids_truthy[OF ids ok] nt Some show ?thesis by simp
qed

lemma asset_name_differs:
  assumes "length a = length b" and "a \<noteq> b"
  shows "a @ x \<noteq> b @ y"
  using assms by simp

lemma provenance_mono:
  assumes pr: "provenance e s d"
      and cp: "set (copied s) \<subseteq> set (copied s')" and ft: "set (fetched s) \<subseteq> set (fetched s')"
      and dir: "\<And>x. outDir s' (d_id d @ x) = outDir s (d_id d @ x)"
  shows "provenance e s' d"
proof -
  from pr consider
    (loc) p c where "p \<in> set (copied s)" "localProvenance e p c (outDir s) d"
  | (url) u status c where "u \<in> set (fetched s)" "urlProvenance e u status c d"
    unfolding provenance_def by blast
  then show ?thesis
  proof cases
    case loc
    from loc(2) have "localProvenance e p c (outDir s') d"
      unfolding localProvenance_def by (simp add: dir)
    with loc(1) cp show ?thesis unfolding provenance_def by blast
  next
    case url
    with ft show ?thesis unfolding provenance_def by blast
  qed
qed

lemma registry_id_index:
  assumes "map d_id (downloads s) = map (randomUUID e) [0..<uuid_next s]"
      and "d \<in> set (downloads s)"
  shows "\<exists>k<uuid_next s. d_id d = randomUUID e k"
proof -
  from assms(2) have "d_id d \<in> set (map d_id (downloads s))" by simp
  with assms(1) have "d_id d \<in> set (map (randomUUID e) [0..<uuid_next s])" by simp
  then show ?thesis by auto
qed

lemma registry_old_names:
  assumes ids: "map d_id (downloads s) = map (randomUUID e) [0..<uuid_next s]"
      and ok: "uuids_ok e (Suc (uuid_next s))"
      and d: "d \<in> set (downloads s)"
  shows "d_id d @ x \<noteq> randomUUID e (uuid_next s) @ y"
proof -
  from registry_id_index[OF ids d] obtain k where k: "k < uuid_next s" "d_id d = randomUUID e k"
    by blast
  from k ok have ne: "d_id d \<noteq> randomUUID e (uuid_next s)"
    by (simp add: uuids_ok_fresh)
  from k ok have "length (d_id d) = length (randomUUID e (uuid_next s))"
    by (simp add: uuids_ok_length)
  with ne show ?thesis by simp
qed

lemma registry_invD:
  assumes "registry_inv e s"
  shows "map d_id (downloads s) = map (randomUUID e) [0..<uuid_next s]"
    and "map (\<lambda>p. Some (normalize e p)) (copied s)
          = map d_localFile (filter (\<lambda>d. d_type d = ''localFile'') (downloads s))"
    and "map (normalizeUrl e) (fetched s)
          = map d_url (filter (\<lambda>d. d_type d = ''url'') (downloads s))"
    and "distinct (map (normalize e) (copied s))"
    and "distinct (map (normalizeUrl e) (fetched s))"
    and "\<And>d. d \<in> set (downloads s) \<Longrightarrow> provenance e s d"
  using assms unfolding registry_inv_def by blast+

lemma registry_inv_local:
  assumes inv: "registry_inv e s"
      and ok: "uuids_ok e (Suc (uuid_next s))"
      and nt: "\<not> truthy (downloadExistsLocalFile e (downloads s) p)"
      and add: "addLocalFileDownload e p s = (Inr ident, s')"
  shows "registry_inv e s'"
proof -
  note ids = registry_invD(1)[OF inv] and tr = registry_invD(2)[OF inv]
  from ok have ok0: "uuids_ok e (uuid_next s)" by (rule uuids_ok_Suc)
  from lookup_local_not_truthy[OF ids ok0 nt]
  have none: "downloadExistsLocalFile e (downloads s) p = None" .
  then have new: "Some (normalize e p) \<notin> set (map d_localFile (filter (\<lambda>d. d_type d = ''localFile'') (downloads s)))"
    by (rule downloadExistsLocalFile_None)
  have new': "normalize e p \<notin> set (map (normalize e) (copied s))"
  proof
    assume "normalize e p \<in> set (map (normalize e) (copied s))"
    then have "Some (normalize e p) \<in> set (map (\<lambda>p. Some (normalize e p)) (copied s))"
      by auto
    with tr new show False by simp
  qed
  from addLocalFileDownload_Inr[OF add] obtain c where
    c: "localFiles e p = Some c" and ident: "ident = randomUUID e (uuid_next s)" and
    s': "s' = s\<lparr>uuid_next := Suc (uuid_next s), copied := copied s @ [p],
                    outDir := (outDir s)(ident @ extname e p \<mapsto> Asset c),
                    downloads := downloads s @
                      [\<lparr> d_id = ident,
                         d_downloadURL = urlPrefix e @ encodeURIComponent e (ident @ extname e p),
                         d_fileSize = length c, d_hash = sha256hex e c,
                         d_type = ''localFile'', d_localFile = Some (normalize e p),
                         d_url = None \<rparr>]\<rparr>"
    by blast
  have old: "provenance e s' d" if d: "d \<in> set (downloads s)" for d
  proof (rule provenance_mono)
    from d show "provenance e s d" by (rule registry_invD(6)[OF inv])
    show "set (copied s) \<subseteq> set (copied s')" by (auto simp: s')
    show "set (fetched s) \<subseteq> set (fetched s')" by (simp add: s')
    show "outDir s' (d_id d @ x) = outDir s (d_id d @ x)" for x
      using registry_old_names[OF ids ok d, of x "extname e p"] by (simp add: s' ident)
  qed
  have newrec: "provenance e s' \<lparr> d_id = ident,
                         d_downloadURL = urlPrefix e @ encodeURIComponent e (ident @ extname e p),
                         d_fileSize = length c, d_hash = sha256hex e c,
                         d_type = ''localFile'', d_localFile = Some (normalize e p),
                         d_url = None \<rparr>"
    unfolding provenance_def localProvenance_def s' using c by auto
  have r1: "map d_id (downloads s') = map (randomUUID e) [0..<uuid_next s']"
    using ids by (simp add: s' ident)
  have r2: "map (\<lambda>p. Some (normalize e p)) (copied s')
          = map d_localFile (filter (\<lambda>d. d_type d = ''localFile'') (downloads s'))"
    using tr by (simp add: s')
  have r3: "map (normalizeUrl e) (fetched s')
          = map d_url (filter (\<lambda>d. d_type d = ''url'') (downloads s'))"
    using registry_invD(3)[OF inv] by (simp add: s')
  have r4: "distinct (map (normalize e) (copied s'))"
    using registry_invD(4)[OF inv] new' by (simp add: s')
  have r5: "distinct (map (normalizeUrl e) (fetched s'))"
    using registry_invD(5)[OF inv] by (simp add: s')
  from old newrec have r6: "\<forall>d\<in>set (downloads s'). provenance e s' d"
    by (auto simp: s')
  from r1 r2 r3 r4 r5 r6 show ?thesis unfolding registry_inv_def by blast
qed

lemma registry_inv_url:
  assumes inv: "registry_inv e s"
      and ok: "uuids_ok e (Suc (uuid_next s))"
      and look: "downloadExistsURL e (downloads s) u = Inr r"
      and nt: "\<not> truthy r"
      and add: "addURLDownload e u s = (Inr ident, s')"
  shows "registry_inv e s'"
proof -
  note ids = registry_invD(1)[OF inv] and tr = registry_invD(3)[OF inv]
  from ok have ok0: "uuids_ok e (uuid_next s)" by (rule uuids_ok_Suc)
  from lookup_url_not_truthy[OF ids ok0 look nt] look
  have none: "downloadExistsURL e (downloads s) u = Inr None" by simp
  then have new: "normalizeUrl e u \<notin> set (map d_url (filter (\<lambda>d. d_type d = ''url'') (downloads s)))"
    by (rule downloadExistsURL_None)
  with tr have new': "normalizeUrl e u \<notin> set (map (normalizeUrl e) (fetched s))"
    by simp
  from addURLDownload_Inr[OF add] obtain status c n where
    c: "fetch e u = Response status (Inr c)" and n: "normalizeUrl e u = Some n" and
    ident: "ident = randomUUID e (uuid_next s)" and
    s': "s' = s\<lparr>temp_next := Suc (temp_next s),
                    temp_live := removeAll (temp_next s) (temp_live s @ [temp_next s]),
                    uuid_next := Suc (uuid_next s), fetched := fetched s @ [u],
                    downloads := downloads s @
                      [\<lparr> d_id = ident, d_downloadURL = u,
                         d_fileSize = length c, d_hash = sha256hex e c,
                         d_type = ''url'', d_localFile = None, d_url = Some n \<rparr>]\<rparr>"
    by blast
  have old: "provenance e s' d" if d: "d \<in> set (downloads s)" for d
  proof (rule provenance_mono)
    from d show "provenance e s d" by (rule registry_invD(6)[OF inv])
    show "set (copied s) \<subseteq> set (copied s')" by (simp add: s')
    show "set (fetched s) \<subseteq> set (fetched s')" by (auto simp: s')
    show "outDir s' (d_id d @ x) = outDir s (d_id d @ x)" for x
      by (simp add: s')
  qed
  have newrec: "provenance e s' \<lparr> d_id = ident, d_downloadURL = u,
                         d_fileSize = length c, d_hash = sha256hex e c,
                         d_type = ''url'', d_localFile = None, d_url = Some n \<rparr>"
    unfolding provenance_def urlProvenance_def s' using c n by auto
  have r1: "map d_id (downloads s') = map (randomUUID e) [0..<uuid_next s']"
    using ids by (simp add: s' ident)
  have r2: "map (\<lambda>p. Some (normalize e p)) (copied s')
          = map d_localFile (filter (\<lambda>d. d_type d = ''localFile'') (downloads s'))"
    using registry_invD(2)[OF inv] by (simp add: s')
  have r3: "map (normalizeUrl e) (fetched s')
          = map d_url (filter (\<lambda>d. d_type d = ''url'') (downloads s'))"
    using tr n by (simp add: s')
  have r4: "distinct (map (normalize e) (copied s'))"
    using registry_invD(4)[OF inv] by (simp add: s')
  have r5: "distinct (map (normalizeUrl e) (fetched s'))"
    using registry_invD(5)[OF inv] new' by (simp add: s')
  from old newrec have r6: "\<forall>d\<in>set (downloads s'). provenance e s' d"
    by (auto simp: s')
  from r1 r2 r3 r4 r5 r6 show ?thesis unfolding registry_inv_def by blast
qed

text \<open>The invariant holds as long as the UUIDs drawn so far are fresh.\<close>

lemma registry_inv_step:
  assumes inv: "uuids_ok e (uuid_next s) \<longrightarrow> registry_inv e s"
      and run: "addFromObject e obj s = (Inr obj', s')"
  shows "uuids_ok e (uuid_next s') \<longrightarrow> registry_inv e s'"
proof
  assume ok': "uuids_ok e (uuid_next s')"
  from run show "registry_inv e s'"
  proof (cases rule: addFromObject_InrE)
    case (ladd p ident)
    from addLocalFileDownload_Inr[OF ladd(3)] have n: "uuid_next s' = Suc (uuid_next s)" by auto
    with ok' have ok: "uuids_ok e (Suc (uuid_next s))" by simp
    with inv have "registry_inv e s" by (simp add: uuids_ok_Suc)
    from registry_inv_local[OF this ok ladd(2,3)] show ?thesis .
  next
    case (uadd u r ident)
    from addURLDownload_Inr[OF uadd(5)] have n: "uuid_next s' = Suc (uuid_next s)" by auto
    with ok' have ok: "uuids_ok e (Suc (uuid_next s))" by simp
    with inv have "registry_inv e s" by (simp add: uuids_ok_Suc)
    from registry_inv_url[OF this ok uadd(3,4,5)] show ?thesis .
  qed (use inv ok' in simp_all)
qed

lemma registry_inv_initial: "registry_inv e (initial\<lparr>outDir := dir\<rparr>)"
  by (simp add: registry_inv_def initial_def)

lemma registry_inv_compileFonts:
  assumes run: "compileFonts e fs (initial\<lparr>outDir := dir\<rparr>) = (Inr fs', s')"
      and ok: "uuids_ok e (uuid_next s')"
  shows "registry_inv e s'"
proof -
  have "uuids_ok e (uuid_next s') \<longrightarrow> registry_inv e s'"
    by (rule compileFonts_ok[where P = "\<lambda>s. uuids_ok e (uuid_next s) \<longrightarrow> registry_inv e s", OF _ _ run])
       (use registry_inv_step registry_inv_initial in blast)+
  with ok show ?thesis by simp
qed


subsection \<open>What an installation is compiled to\<close>

lemma extends_refl: "extends s s"
  by (simp add: extends_def)

lemma extends_trans: "extends s s1 \<Longrightarrow> extends s1 s2 \<Longrightarrow> extends s s2"
  by (auto simp: extends_def)

lemma addFromObject_extends:
  assumes "addFromObject e obj s = (Inr obj', s')"
  shows "extends s s'"
  using assms
proof (cases rule: addFromObject_InrE)
  case (ladd p ident)
  from addLocalFileDownload_Inr[OF ladd(3)] show ?thesis by (auto simp: extends_def)
next
  case (uadd u r ident)
  from addURLDownload_Inr[OF uadd(5)] show ?thesis by (auto simp: extends_def)
qed (simp_all add: extends_def)

lemma compileInstallations_extends:
  assumes "compileInstallations e objs s = (Inr objs', s')"
  shows "extends s s'"
  by (rule compileInstallations_ok[where P = "extends s", OF _ extends_refl assms])
     (blast intro: extends_trans addFromObject_extends)

lemma compileFonts_extends:
  assumes "compileFonts e fs s = (Inr fs', s')"
  shows "extends s s'"
  by (rule compileFonts_ok[where P = "extends s", OF _ extends_refl assms])
     (blast intro: extends_trans addFromObject_extends)

lemma assigned_stable:
  assumes "resolved e ds i"
  shows "assigned e (ds @ ds2) i = assigned e ds i"
proof (cases "i_localPath i")
  case (Some p)
  with assms obtain x where "downloadExistsLocalFile e ds p = Some x"
    by (auto simp: resolved_def assigned_def)
  with Some downloadExistsLocalFile_append[of e ds p x ds2] show ?thesis
    by (simp add: assigned_def)
next
  case None
  show ?thesis
  proof (cases "i_url i")
    case n2: None
    with None show ?thesis by (simp add: assigned_def)
  next
    case (Some u)
    with None assms obtain x where "downloadExistsURL e ds u = Inr (Some x)"
      by (auto simp: resolved_def assigned_def split: sum.splits)
    with None Some downloadExistsURL_append[of e ds u x ds2] show ?thesis
      by (simp add: assigned_def)
  qed
qed

lemma resolved_stable: "resolved e ds i \<Longrightarrow> resolved e (ds @ ds2) i"
  using assigned_stable[of e ds i ds2] by (auto simp: resolved_def)

lemma addFromObject_assigned:
  assumes inv: "registry_inv e s"
      and ok: "uuids_ok e (uuid_next s')"
      and run: "addFromObject e obj s = (Inr obj', s')"
  shows "obj' = cleanUp (i_localPath obj) (i_url obj) (obj\<lparr>i_download := assigned e (downloads s') obj\<rparr>)
         \<and> resolved e (downloads s') obj"
proof -
  note ids = registry_invD(1)[OF inv]
  from addFromObject_extends[OF run] ok have ok0: "uuids_ok e (uuid_next s)"
    by (auto simp: extends_def intro: uuids_ok_mono)
  from run show ?thesis
  proof (cases rule: addFromObject_InrE)
    case (lfound p x)
    then show ?thesis by (simp add: assigned_def resolved_def)
  next
    case (ladd p ident)
    from lookup_local_not_truthy[OF ids ok0 ladd(2)]
    have none: "downloadExistsLocalFile e (downloads s) p = None" .
    from addLocalFileDownload_Inr[OF ladd(3)] obtain d where
      d: "downloads s' = downloads s @ [d]" "d_id d = ident" "d_type d = ''localFile''"
         "d_localFile d = Some (normalize e p)"
      by auto
    from downloadExistsLocalFile_snoc[OF none d(3,4)] d(1,2) ladd(1,4)
    show ?thesis by (simp add: assigned_def resolved_def)
  next
    case (ufound u x)
    then show ?thesis by (simp add: assigned_def resolved_def)
  next
    case (uadd u r ident)
    from lookup_url_not_truthy[OF ids ok0 uadd(3,4)] uadd(3)
    have none: "downloadExistsURL e (downloads s) u = Inr None" by simp
    from addURLDownload_Inr[OF uadd(5)] obtain d n where
      d: "downloads s' = downloads s @ [d]" "d_id d = ident" "d_type d = ''url''"
         "normalizeUrl e u = Some n" "d_url d = Some n"
      by auto
    from downloadExistsURL_snoc[OF none d(3,4,5)] d(1,2) uadd(1,2,6)
    show ?thesis by (simp add: assigned_def resolved_def)
  next
    case neither
    then show ?thesis by (simp add: assigned_def resolved_def)
  qed
qed

lemma cleanUp_type: "i_type (cleanUp a b i) = i_type i"
  by (simp add: cleanUp_def Let_def)

lemma sortFiles_Inr:
  assumes "sortFiles obj = Inr obj'"
  shows "obj' = (if i_type obj = ''cabextract''
                 then obj\<lparr>i_files := map_option array_sort_default (i_files obj)\<rparr> else obj)"
  using assms by (auto simp: sortFiles_def split: if_splits option.splits)

lemma compileInstallations_compiled:
  assumes "uuids_ok e (uuid_next s) \<longrightarrow> registry_inv e s"
      and "uuids_ok e (uuid_next s')"
      and "compileInstallations e objs s = (Inr objs', s')"
  shows "objs' = map (compiledInstallation e (downloads s')) objs
         \<and> (\<forall>obj\<in>set objs. resolved e (downloads s') obj)"
  using assms
proof (induction objs arbitrary: s objs')
  case Nil
  then show ?case by simp
next
  case (Cons obj objs)
  from Cons.prems(3) obtain o1 s1 o2 os where
    a: "addFromObject e obj s = (Inr o1, s1)" and
    f: "sortFiles o1 = Inr o2" and
    c: "compileInstallations e objs s1 = (Inr os, s')" and
    r: "objs' = o2 # os"
    by (auto split: prod.splits sum.splits)
  from compileInstallations_extends[OF c] obtain ds where
    ds: "downloads s' = downloads s1 @ ds" and le: "uuid_next s1 \<le> uuid_next s'"
    by (auto simp: extends_def)
  from le Cons.prems(2) have ok1: "uuids_ok e (uuid_next s1)" by (rule uuids_ok_mono[rotated])
  from addFromObject_extends[OF a] ok1 have ok0: "uuids_ok e (uuid_next s)"
    by (auto simp: extends_def intro: uuids_ok_mono)
  with Cons.prems(1) have inv: "registry_inv e s" by simp
  from registry_inv_step[OF Cons.prems(1) a] have inv1: "uuids_ok e (uuid_next s1) \<longrightarrow> registry_inv e s1" .
  from addFromObject_assigned[OF inv ok1 a] have
    o1: "o1 = cleanUp (i_localPath obj) (i_url obj) (obj\<lparr>i_download := assigned e (downloads s1) obj\<rparr>)"
    and res: "resolved e (downloads s1) obj"
    by simp_all
  from res have st: "assigned e (downloads s') obj = assigned e (downloads s1) obj"
    unfolding ds by (rule assigned_stable)
  from res have res': "resolved e (downloads s') obj"
    unfolding ds by (rule resolved_stable)
  from sortFiles_Inr[OF f] o1 st have "o2 = compiledInstallation e (downloads s') obj"
    by (simp add: compiledInstallation_def Let_def)
  with Cons.IH[OF inv1 Cons.prems(2) c] r res' show ?case by simp
qed

lemma compileFonts_compiled:
  assumes "uuids_ok e (uuid_next s) \<longrightarrow> registry_inv e s"
      and "uuids_ok e (uuid_next s')"
      and "compileFonts e fs s = (Inr fs', s')"
  shows "fs' = map (compiledFont e (downloads s')) fs
         \<and> (\<forall>obj\<in>set (concat (map f_installations fs)). resolved e (downloads s') obj)"
  using assms
proof (induction fs arbitrary: s fs')
  case Nil
  then show ?case by simp
next
  case (Cons f fs)
  from Cons.prems(3) obtain objs s1 fs1 where
    a: "compileInstallations e (f_installations f) s = (Inr objs, s1)" and
    c: "compileFonts e fs s1 = (Inr fs1, s')" and
    r: "fs' = f\<lparr>f_installations := array_sort sortByDownloadID objs\<rparr> # fs1"
    by (auto split: prod.splits sum.splits)
  from compileFonts_extends[OF c] obtain ds where
    ds: "downloads s' = downloads s1 @ ds" and le: "uuid_next s1 \<le> uuid_next s'"
    by (auto simp: extends_def)
  from le Cons.prems(2) have ok1: "uuids_ok e (uuid_next s1)" by (rule uuids_ok_mono[rotated])
  have inv1: "uuids_ok e (uuid_next s1) \<longrightarrow> registry_inv e s1"
    by (rule compileInstallations_ok[where P = "\<lambda>s. uuids_ok e (uuid_next s) \<longrightarrow> registry_inv e s",
              OF _ Cons.prems(1) a])
       (use registry_inv_step in blast)
  from compileInstallations_compiled[OF Cons.prems(1) ok1 a] have
    objs: "objs = map (compiledInstallation e (downloads s1)) (f_installations f)" and
    res: "\<forall>obj\<in>set (f_installations f). resolved e (downloads s1) obj"
    by simp_all
  from res have res': "\<forall>obj\<in>set (f_installations f). resolved e (downloads s') obj"
    unfolding ds by (blast intro: resolved_stable)
  from res have "map (compiledInstallation e (downloads s1)) (f_installations f)
      = map (compiledInstallation e (downloads s')) (f_installations f)"
    unfolding ds by (auto simp: compiledInstallation_def assigned_stable)
  with objs r have "hd fs' = compiledFont e (downloads s') f" "tl fs' = fs1"
    by (simp_all add: compiledFont_def)
  with r Cons.IH[OF inv1 Cons.prems(2) c] res' show ?case by auto
qed


subsection \<open>The whole run\<close>

lemma main_InrE:
  assumes "main e dist cat = (Inr m, s')"
  obtains fs s1 where
    "compileFonts e (c_fonts cat) (initial\<lparr>outDir := Map.empty\<rparr>) = (Inr fs, s1)"
    "m = \<lparr> m_version = version e,
           m_downloads = array_sort sortById (map stripDownload (downloads s1)),
           m_fonts = map font (array_sort sortByName fs) \<rparr>"
    "s' = s1\<lparr>outDir := (outDir s1)(''fonts.json'' \<mapsto> Document (stringifyManifest m))\<rparr>"
proof -
  have dir: "(case dist of None \<Rightarrow> Map.empty | Some old \<Rightarrow> Map.empty)
             = (Map.empty :: string \<rightharpoonup> file_content)"
    by (cases dist) simp_all
  from assms show ?thesis
    unfolding main_def Let_def dir
    by (auto split: prod.splits sum.splits intro: that)
qed

lemma main_Inl:
  assumes "main e dist cat = (Inl err, s')"
  shows "compileFonts e (c_fonts cat) (initial\<lparr>outDir := Map.empty\<rparr>) = (Inl err, s')"
proof -
  have dir: "(case dist of None \<Rightarrow> Map.empty | Some old \<Rightarrow> Map.empty)
             = (Map.empty :: string \<rightharpoonup> file_content)"
    by (cases dist) simp_all
  from assms show ?thesis
    unfolding main_def Let_def dir
    by (auto split: prod.splits sum.splits)
qed

lemma registry_inv_manifest_written:
  assumes inv: "registry_inv e s" and ok: "uuids_ok e (uuid_next s)"
  shows "registry_inv e (s\<lparr>outDir := (outDir s)(''fonts.json'' \<mapsto> x)\<rparr>)"
proof -
  note ids = registry_invD(1)[OF inv]
  have "provenance e (s\<lparr>outDir := (outDir s)(''fonts.json'' \<mapsto> x)\<rparr>) d"
    if d: "d \<in> set (downloads s)" for d
  proof (rule provenance_mono)
    from d show "provenance e s d" by (rule registry_invD(6)[OF inv])
    from registry_id_index[OF ids d] obtain k where "k < uuid_next s" "d_id d = randomUUID e k"
      by blast
    with ok have "length (d_id d) = 36" by (simp add: uuids_ok_length)
    then have "d_id d @ y \<noteq> ''fonts.json''" for y
      by (auto dest: arg_cong[where f = length])
    then show "outDir (s\<lparr>outDir := (outDir s)(''fonts.json'' \<mapsto> x)\<rparr>) (d_id d @ y)
               = outDir s (d_id d @ y)" for y
      by simp
  qed simp_all
  then have "\<forall>d\<in>set (downloads (s\<lparr>outDir := (outDir s)(''fonts.json'' \<mapsto> x)\<rparr>)).
               provenance e (s\<lparr>outDir := (outDir s)(''fonts.json'' \<mapsto> x)\<rparr>) d"
    by simp
  moreover note registry_invD(1-5)[OF inv]
  ultimately show ?thesis unfolding registry_inv_def by simp
qed

lemma main_compiled:
  assumes run: "main e dist cat = (Inr m, s')" and ok: "uuids_ok e (uuid_next s')"
  shows "registry_inv e s'"
    and "m_version m = version e"
    and "m_downloads m = array_sort sortById (map stripDownload (downloads s'))"
    and "m_fonts m = map font (array_sort sortByName
                       (map (compiledFont e (downloads s')) (c_fonts cat)))"
    and "\<And>i. i \<in> set (installationsOf cat) \<Longrightarrow> resolved e (downloads s') i"
proof -
  from run obtain fs s1 where
    c: "compileFonts e (c_fonts cat) (initial\<lparr>outDir := Map.empty\<rparr>) = (Inr fs, s1)" and
    m: "m = \<lparr> m_version = version e,
           m_downloads = array_sort sortById (map stripDownload (downloads s1)),
           m_fonts = map font (array_sort sortByName fs) \<rparr>" and
    s': "s' = s1\<lparr>outDir := (outDir s1)(''fonts.json'' \<mapsto> Document (stringifyManifest m))\<rparr>"
    by (rule main_InrE)
  from ok have ok1: "uuids_ok e (uuid_next s1)" by (simp add: s')
  from registry_inv_compileFonts[OF c ok1] have inv1: "registry_inv e s1" .
  from registry_inv_manifest_written[OF inv1 ok1] show "registry_inv e s'"
    unfolding s' .
  from m show "m_version m = version e" by simp
  from m show "m_downloads m = array_sort sortById (map stripDownload (downloads s'))"
    by (simp add: s')
  have init: "uuids_ok e (uuid_next (initial\<lparr>outDir := Map.empty\<rparr>))
              \<longrightarrow> registry_inv e (initial\<lparr>outDir := Map.empty\<rparr>)"
    by (simp add: registry_inv_initial)
  from compileFonts_compiled[OF init ok1 c] have
    fs: "fs = map (compiledFont e (downloads s1)) (c_fonts cat)" and
    res: "\<forall>obj\<in>set (concat (map f_installations (c_fonts cat))). resolved e (downloads s1) obj"
    by simp_all
  from fs m show "m_fonts m = map font (array_sort sortByName
                       (map (compiledFont e (downloads s')) (c_fonts cat)))"
    by (simp add: s')
  from res show "\<And>i. i \<in> set (installationsOf cat) \<Longrightarrow> resolved e (downloads s') i"
    by (auto simp: s' installationsOf_def)
qed

lemma compiledInstallation_download:
  "i_download (compiledInstallation e ds i) = assigned e ds i"
  by (simp add: compiledInstallation_def cleanUp_def Let_def)

lemma assigned_key:
  assumes "canonicalKey e i \<noteq> None" and "canonicalKey e i = canonicalKey e j"
  shows "assigned e ds i = assigned e ds j"
proof (cases "i_localPath i")
  case (Some p)
  with assms obtain q where "i_localPath j = Some q" "normalize e p = normalize e q"
    by (auto simp: canonicalKey_def map_option_case split: option.splits)
  with Some downloadExistsLocalFile_key[of e p q ds] show ?thesis
    by (simp add: assigned_def)
next
  case None
  with assms obtain u n where u: "i_url i = Some u" "normalizeUrl e u = Some n"
    by (auto simp: canonicalKey_def map_option_case split: option.splits)
  with assms None obtain v where v: "i_localPath j = None" "i_url j = Some v" "normalizeUrl e v = Some n"
    by (auto simp: canonicalKey_def map_option_case split: option.splits)
  from downloadExistsURL_key[OF u(2) v(3), of ds] None u v show ?thesis
    by (simp add: assigned_def)
qed

lemma assigned_in_registry:
  assumes "i_localPath i \<noteq> None \<or> i_url i \<noteq> None" and "resolved e ds i"
  shows "\<exists>d\<in>set ds. assigned e ds i = Some (d_id d)"
proof (cases "i_localPath i")
  case (Some p)
  with assms obtain x where x: "downloadExistsLocalFile e ds p = Some x"
    by (auto simp: resolved_def assigned_def)
  from downloadExistsLocalFile_Some[OF x] x Some show ?thesis
    by (auto simp: assigned_def)
next
  case None
  with assms obtain u where u: "i_url i = Some u" by auto
  with None assms obtain x where x: "downloadExistsURL e ds u = Inr (Some x)"
    by (auto simp: resolved_def assigned_def split: sum.splits)
  from downloadExistsURL_Some[OF x] x None u show ?thesis
    by (auto simp: assigned_def)
qed

lemma filter_unique:
  assumes "distinct (map f xs)" and "x \<in> set xs"
  shows "length (filter (\<lambda>y. f y = f x) xs) = 1"
  using assms
proof (induction xs)
  case Nil
  then show ?case by simp
next
  case (Cons a xs)
  show ?case
  proof (cases "f a = f x")
    case True
    with Cons.prems have "\<forall>y\<in>set xs. f y \<noteq> f x" by (auto simp: image_iff)
    then have "filter (\<lambda>y. f y = f x) xs = []" by (simp add: filter_empty_conv)
    with True show ?thesis by simp
  next
    case False
    with Cons show ?thesis by auto
  qed
qed

lemma length_filter_array_sort:
  "length (filter P (array_sort cmp xs)) = length (filter P xs)"
proof -
  have "mset (filter P (array_sort cmp xs)) = mset (filter P xs)"
    by (simp add: mset_array_sort)
  then show ?thesis by (metis size_mset)
qed

lemma registry_ids_distinct:
  assumes "registry_inv e s" and "uuids_ok e (uuid_next s)"
  shows "distinct (map d_id (downloads s))"
  using registry_invD(1)[OF assms(1)] assms(2) by (simp add: uuids_ok_def)

lemma one_record_per_id:
  assumes inv: "registry_inv e s" and ok: "uuids_ok e (uuid_next s)"
      and d: "d \<in> set (downloads s)"
  shows "length (filter (\<lambda>r. o_id r = d_id d)
           (array_sort sortById (map stripDownload (downloads s)))) = 1"
proof -
  have "length (filter (\<lambda>r. o_id r = d_id d) (map stripDownload (downloads s)))
        = length (filter (\<lambda>y. d_id y = d_id d) (downloads s))"
    by (simp add: filter_map comp_def stripDownload_def)
  also from filter_unique[OF registry_ids_distinct[OF inv ok] d] have "\<dots> = 1" .
  finally show ?thesis by (simp add: length_filter_array_sort)
qed


subsection \<open>Failed runs, and where the files come from\<close>

lemma traces_distinct_fail:
  assumes inv: "uuids_ok e (uuid_next s) \<longrightarrow> registry_inv e s"
      and run: "addFromObject e obj s = (Inl err, s')"
  shows "uuids_ok e (uuid_next s') \<longrightarrow>
           distinct (map (normalize e) (copied s')) \<and> distinct (map (normalizeUrl e) (fetched s'))"
proof
  assume ok': "uuids_ok e (uuid_next s')"
  from run show "distinct (map (normalize e) (copied s')) \<and> distinct (map (normalizeUrl e) (fetched s'))"
  proof (cases rule: addFromObject_InlE)
    case (ladd p)
    from addLocalFileDownload_Inl[OF ladd(3)] have
      s': "s' = s\<lparr>uuid_next := Suc (uuid_next s), copied := copied s @ [p]\<rparr>" by simp
    with ok' have ok: "uuids_ok e (uuid_next s)" by (simp add: uuids_ok_Suc)
    with inv have r: "registry_inv e s" by simp
    from lookup_local_not_truthy[OF registry_invD(1)[OF r] ok ladd(2)]
    have "downloadExistsLocalFile e (downloads s) p = None" .
    then have new: "Some (normalize e p) \<notin> set (map d_localFile (filter (\<lambda>d. d_type d = ''localFile'') (downloads s)))"
      by (rule downloadExistsLocalFile_None)
    have "normalize e p \<notin> set (map (normalize e) (copied s))"
    proof
      assume "normalize e p \<in> set (map (normalize e) (copied s))"
      then have "Some (normalize e p) \<in> set (map (\<lambda>p. Some (normalize e p)) (copied s))"
        by auto
      with registry_invD(2)[OF r] new show False by simp
    qed
    with registry_invD(4,5)[OF r] show ?thesis by (simp add: s')
  next
    case (ulook u)
    with inv ok' registry_invD(4,5)[of e s] show ?thesis by simp
  next
    case (uadd u r)
    from addURLDownload_Inl[OF uadd(5)] have
      s': "uuid_next s' = Suc (uuid_next s)" "fetched s' = fetched s @ [u]" "copied s' = copied s"
      by simp_all
    with ok' have ok: "uuids_ok e (uuid_next s)" by (simp add: uuids_ok_Suc)
    with inv have ri: "registry_inv e s" by simp
    from lookup_url_not_truthy[OF registry_invD(1)[OF ri] ok uadd(3,4)] uadd(3)
    have "downloadExistsURL e (downloads s) u = Inr None" by simp
    then have "normalizeUrl e u \<notin> set (map d_url (filter (\<lambda>d. d_type d = ''url'') (downloads s)))"
      by (rule downloadExistsURL_None)
    with registry_invD(3)[OF ri] have "normalizeUrl e u \<notin> set (map (normalizeUrl e) (fetched s))"
      by simp
    with registry_invD(4,5)[OF ri] show ?thesis by (simp add: s')
  qed
qed

lemma traces_distinct:
  assumes run: "main e dist cat = (r, s')" and ok: "uuids_ok e (uuid_next s')"
  shows "distinct (map (normalize e) (copied s')) \<and> distinct (map (normalizeUrl e) (fetched s'))"
proof (cases r)
  case (Inr m)
  from main_compiled(1)[OF run[unfolded Inr] ok] show ?thesis
    by (simp add: registry_invD(4,5))
next
  case (Inl err)
  from main_Inl[OF run[unfolded Inl]]
  have c: "compileFonts e (c_fonts cat) (initial\<lparr>outDir := Map.empty\<rparr>) = (Inl err, s')" .
  have "uuids_ok e (uuid_next s') \<longrightarrow>
           distinct (map (normalize e) (copied s')) \<and> distinct (map (normalizeUrl e) (fetched s'))"
  proof (rule compileFonts_err[where P = "\<lambda>s. uuids_ok e (uuid_next s) \<longrightarrow> registry_inv e s", OF _ _ _ _ c])
    show "\<forall>obj\<in>set (concat (map f_installations (c_fonts cat))). \<forall>s obj' s'.
            (uuids_ok e (uuid_next s) \<longrightarrow> registry_inv e s) \<longrightarrow>
            addFromObject e obj s = (Inr obj', s') \<longrightarrow>
            (uuids_ok e (uuid_next s') \<longrightarrow> registry_inv e s')"
      using registry_inv_step by blast
    show "\<forall>obj\<in>set (concat (map f_installations (c_fonts cat))). \<forall>s err s'.
            (uuids_ok e (uuid_next s) \<longrightarrow> registry_inv e s) \<longrightarrow>
            addFromObject e obj s = (Inl err, s') \<longrightarrow>
            (uuids_ok e (uuid_next s') \<longrightarrow>
              distinct (map (normalize e) (copied s')) \<and> distinct (map (normalizeUrl e) (fetched s')))"
      using traces_distinct_fail by blast
    show "\<forall>s. (uuids_ok e (uuid_next s) \<longrightarrow> registry_inv e s) \<longrightarrow>
            (uuids_ok e (uuid_next s) \<longrightarrow>
              distinct (map (normalize e) (copied s)) \<and> distinct (map (normalizeUrl e) (fetched s)))"
      using registry_invD(4,5) by blast
    show "uuids_ok e (uuid_next (initial\<lparr>outDir := Map.empty\<rparr>))
            \<longrightarrow> registry_inv e (initial\<lparr>outDir := Map.empty\<rparr>)"
      by (simp add: registry_inv_initial)
  qed
  with ok show ?thesis by simp
qed

lemma sourced_local:
  assumes src: "sourced e objs s" and obj: "obj \<in> set objs" and p: "i_localPath obj = Some p"
      and run: "addLocalFileDownload e p s = (r, s')"
  shows "sourced e objs s'"
proof (cases r)
  case (Inl err)
  from addLocalFileDownload_Inl[OF run[unfolded Inl]] have
    s': "s' = s\<lparr>uuid_next := Suc (uuid_next s), copied := copied s @ [p]\<rparr>" by simp
  from src obj p show ?thesis unfolding sourced_def s' by auto
next
  case (Inr ident)
  from addLocalFileDownload_Inr[OF run[unfolded Inr]] obtain c ds where
    c: "localFiles e p = Some c" and
    s': "s' = s\<lparr>uuid_next := Suc (uuid_next s), copied := copied s @ [p],
                    outDir := (outDir s)(ident @ extname e p \<mapsto> Asset c),
                    downloads := ds\<rparr>"
    by blast
  from src obj p c show ?thesis unfolding sourced_def s' by auto
qed

lemma sourced_url:
  assumes src: "sourced e objs s" and obj: "obj \<in> set objs"
      and p: "i_localPath obj = None" "i_url obj = Some u"
      and run: "addURLDownload e u s = (r, s')"
  shows "sourced e objs s'"
proof (cases r)
  case (Inl err)
  from addURLDownload_Inl[OF run[unfolded Inl]] have
    "fetched s' = fetched s @ [u]" "copied s' = copied s" "outDir s' = outDir s"
    by simp_all
  with src obj p show ?thesis unfolding sourced_def by auto
next
  case (Inr ident)
  from addURLDownload_Inr[OF run[unfolded Inr]] have
    "fetched s' = fetched s @ [u]" "copied s' = copied s" "outDir s' = outDir s"
    by auto
  with src obj p show ?thesis unfolding sourced_def by auto
qed

lemma sourced_step:
  assumes src: "sourced e objs s" and obj: "obj \<in> set objs"
      and run: "addFromObject e obj s = (r, s')"
  shows "sourced e objs s'"
proof (cases r)
  case (Inl err)
  from run[unfolded Inl] show ?thesis
  proof (cases rule: addFromObject_InlE)
    case (ladd p)
    from sourced_local[OF src obj ladd(1,3)] show ?thesis .
  next
    case (ulook u)
    with src show ?thesis by simp
  next
    case (uadd u r)
    from sourced_url[OF src obj uadd(1,2,5)] show ?thesis .
  qed
next
  case (Inr obj')
  from run[unfolded Inr] show ?thesis
  proof (cases rule: addFromObject_InrE)
    case (ladd p ident)
    from sourced_local[OF src obj ladd(1,3)] show ?thesis .
  next
    case (uadd u r ident)
    from sourced_url[OF src obj uadd(1,2,5)] show ?thesis .
  qed (use src in simp_all)
qed

lemma sourced_compileFonts:
  assumes run: "compileFonts e (c_fonts cat) (initial\<lparr>outDir := Map.empty\<rparr>) = (r, s')"
  shows "sourced e (installationsOf cat) s'"
proof -
  have init: "sourced e (installationsOf cat) (initial\<lparr>outDir := Map.empty\<rparr>)"
    by (simp add: sourced_def initial_def)
  have step: "\<forall>obj\<in>set (concat (map f_installations (c_fonts cat))). \<forall>s x s'.
            sourced e (installationsOf cat) s \<longrightarrow> addFromObject e obj s = (x, s') \<longrightarrow>
            sourced e (installationsOf cat) s'"
    using sourced_step unfolding installationsOf_def by blast
  show ?thesis
  proof (cases r)
    case (Inl err)
    show ?thesis
      by (rule compileFonts_err[where P = "sourced e (installationsOf cat)", OF _ _ _ init run[unfolded Inl]])
         (use step in blast)+
  next
    case (Inr fs)
    show ?thesis
      by (rule compileFonts_ok[where P = "sourced e (installationsOf cat)", OF _ init run[unfolded Inr]])
         (use step in blast)
  qed
qed






section \<open>Remote fetch failures\<close>

text \<open>
  Claim C4 (any transport error or non-success HTTP response is fatal, annotated with the
  URL, and no Download record is created from a non-success response). The build script
  treats a rejected \<open>fetch\<close> so: on \<open>catalog_unreachable\<close> the compile fails and
  the console names the URL. But it never looks at the status of a response: on
  \<open>catalog_http_404\<close>, whose only URL is answered with status 404, the compile
  succeeds and the manifest holds a Download record with the size and the digest of the
  404 body.
\<close>

theorem http_404_response_becomes_download:
  "fst (main example_env None catalog_unreachable) = Inl (FetchError ''ENOTFOUND'')
   \<and> console (snd (main example_env None catalog_unreachable))
        = [''Failed to download file from URL: http://unreachable.example/x'']
   \<and> fetch example_env ''http://example.com/missing'' = Response 404 (Inr [78, 111, 116])
   \<and> (case fst (main example_env None catalog_http_404) of
         Inl err \<Rightarrow> False
       | Inr m \<Rightarrow> m_downloads m =
           [\<lparr> o_id = ''3b241101-e2bb-4255-8caf-4136c566a962'',
              o_downloadURL = ''http://example.com/missing'',
              o_fileSize = 3, o_hash = ''aaa'' \<rparr>])"
  by code_simp

text \<open>
  Claim C7 (the temporary directory of a remote fetch is removed on success and on
  failure). \<open>addURLDownload\<close> removes the folder on its last line only, which a failed
  fetch never reaches: on \<open>catalog_unreachable\<close> the compile fails with the error of
  the fetch and the temporary folder made for it still exists.
\<close>

theorem failed_fetch_leaves_temp_folder:
  "fst (main example_env None catalog_unreachable) = Inl (FetchError ''ENOTFOUND'')
   \<and> temp_live (snd (main example_env None catalog_unreachable)) = [0]
   \<and> temp_live (snd (main example_env None example_catalog)) = []"
  by code_simp


section \<open>Deduplication of the downloads\<close>

text \<open>
  Claim C1 (dedup invariant). In a run of the build script in which the UUIDs drawn are
  pairwise distinct 36-character strings: \<open>copyFileSync\<close> is called at most once per
  normalized local path and \<open>fetch\<close> at most once per normalized URL, whether the run
  succeeds or fails; and when it succeeds, every installation \<open>i\<close> of the catalog is
  written as \<open>compiledInstallation e (downloads s') i\<close>, any two installations with
  the same canonical key carry the same download id, and exactly one record of the
  manifest's \<open>downloads\<close> has that id.
\<close>

theorem dedup_invariant:
  assumes run: "main e dist cat = (r, s')" and ok: "uuids_ok e (uuid_next s')"
  shows "distinct (map (normalize e) (copied s')) \<and> distinct (map (normalizeUrl e) (fetched s'))
    \<and> (\<forall>m. r = Inr m \<longrightarrow>
          m_fonts m = map font (array_sort sortByName
                        (map (compiledFont e (downloads s')) (c_fonts cat)))
          \<and> (\<forall>i\<in>set (installationsOf cat). \<forall>j\<in>set (installationsOf cat).
                canonicalKey e i \<noteq> None \<and> canonicalKey e i = canonicalKey e j \<longrightarrow>
                (\<exists>ident. i_download (compiledInstallation e (downloads s') i) = Some ident
                   \<and> i_download (compiledInstallation e (downloads s') j) = Some ident
                   \<and> length (filter (\<lambda>d. o_id d = ident) (m_downloads m)) = 1)))"
proof (intro conjI allI impI ballI)
  from traces_distinct[OF run ok]
  show "distinct (map (normalize e) (copied s'))" "distinct (map (normalizeUrl e) (fetched s'))"
    by simp_all
next
  fix m assume "r = Inr m"
  with run have run': "main e dist cat = (Inr m, s')" by simp
  from main_compiled(4)[OF run' ok]
  show "m_fonts m = map font (array_sort sortByName
                        (map (compiledFont e (downloads s')) (c_fonts cat)))" .
next
  fix m i j
  assume "r = Inr m" and i: "i \<in> set (installationsOf cat)" and j: "j \<in> set (installationsOf cat)"
     and key: "canonicalKey e i \<noteq> None \<and> canonicalKey e i = canonicalKey e j"
  with run have run': "main e dist cat = (Inr m, s')" by simp
  note inv = main_compiled(1)[OF run' ok]
  from key have ref: "i_localPath i \<noteq> None \<or> i_url i \<noteq> None"
    by (auto simp: canonicalKey_def split: option.splits)
  from assigned_in_registry[OF ref main_compiled(5)[OF run' ok i]] obtain d where
    d: "d \<in> set (downloads s')" "assigned e (downloads s') i = Some (d_id d)"
    by blast
  from key have same: "assigned e (downloads s') i = assigned e (downloads s') j"
    by (intro assigned_key) blast+
  from one_record_per_id[OF inv ok d(1)] main_compiled(3)[OF run' ok]
  have "length (filter (\<lambda>r. o_id r = d_id d) (m_downloads m)) = 1" by simp
  with d(2) same
  show "\<exists>ident. i_download (compiledInstallation e (downloads s') i) = Some ident
                   \<and> i_download (compiledInstallation e (downloads s') j) = Some ident
                   \<and> length (filter (\<lambda>d. o_id d = ident) (m_downloads m)) = 1"
    by (simp add: compiledInstallation_download)
qed

theorem dedup_invariant_witness:
  "uuids_ok example_env (uuid_next (snd (main example_env None example_catalog)))
   \<and> canonicalKey example_env (cab None (Some ''HTTP://Example.com/f'') [''b.ttf'', ''a.ttf''])
       = canonicalKey example_env (cab None (Some ''http://example.com/f'') [''arial.ttf''])
   \<and> fetched (snd (main example_env None example_catalog)) = [''HTTP://Example.com/f'']
   \<and> distinct (map (normalizeUrl example_env) (fetched (snd (main example_env None example_catalog))))
   \<and> distinct (map (normalize example_env) (copied (snd (main example_env None example_catalog))))
   \<and> (\<exists>ident.
         i_download (compiledInstallation example_env
            (downloads (snd (main example_env None example_catalog)))
            (cab None (Some ''HTTP://Example.com/f'') [''b.ttf'', ''a.ttf''])) = Some ident
       \<and> i_download (compiledInstallation example_env
            (downloads (snd (main example_env None example_catalog)))
            (cab None (Some ''http://example.com/f'') [''arial.ttf''])) = Some ident
       \<and> length (filter (\<lambda>d. o_id d = ident)
            (m_downloads (projr (fst (main example_env None example_catalog))))) = 1)"
proof -
  let ?r = "fst (main example_env None example_catalog)"
  let ?s = "snd (main example_env None example_catalog)"
  let ?i = "cab None (Some ''HTTP://Example.com/f'') [''b.ttf'', ''a.ttf'']"
  let ?j = "cab None (Some ''http://example.com/f'') [''arial.ttf'']"
  have run: "main example_env None example_catalog = (?r, ?s)" by simp
  have ok: "uuids_ok example_env (uuid_next ?s)" by code_simp
  have r: "?r = Inr (projr ?r)" by code_simp
  have i: "?i \<in> set (installationsOf example_catalog)" by code_simp
  have j: "?j \<in> set (installationsOf example_catalog)" by code_simp
  have key: "canonicalKey example_env ?i \<noteq> None \<and> canonicalKey example_env ?i = canonicalKey example_env ?j"
    by code_simp
  have f: "fetched ?s = [''HTTP://Example.com/f'']" by code_simp
  from dedup_invariant[OF run ok] r i j key ok f show ?thesis by blast
qed


section \<open>The dependency references of a compiled installation\<close>

lemma cleanUp_fields:
  "i_localPath (cleanUp a b i) = (if truthy a then None else i_localPath i)"
  "i_url (cleanUp a b i) = (if truthy b then None else i_url i)"
  "i_download (cleanUp a b i) = i_download i"
  by (simp_all add: cleanUp_def Let_def)

lemma compiledInstallation_references:
  "i_localPath (compiledInstallation e ds i) = (if truthy (i_localPath i) then None else i_localPath i)"
  "i_url (compiledInstallation e ds i) = (if truthy (i_url i) then None else i_url i)"
  by (simp_all add: compiledInstallation_def Let_def cleanUp_fields)

lemma compiled_installation_source:
  assumes run: "main e dist cat = (Inr m, s')" and ok: "uuids_ok e (uuid_next s')"
      and f: "f \<in> set (m_fonts m)" and obj: "obj \<in> set (f_installations f)"
  shows "\<exists>i\<in>set (installationsOf cat). obj = compiledInstallation e (downloads s') i"
proof -
  from f main_compiled(4)[OF run ok] obtain g where
    g: "g \<in> set (c_fonts cat)" "f = font (compiledFont e (downloads s') g)"
    by (auto simp: set_array_sort)
  from obj g(2) have "obj \<in> compiledInstallation e (downloads s') ` set (f_installations g)"
    by (simp add: font_def compiledFont_def set_array_sort)
  with g(1) show ?thesis by (auto simp: installationsOf_def)
qed

lemma stripped_in_manifest:
  assumes run: "main e dist cat = (Inr m, s')" and ok: "uuids_ok e (uuid_next s')"
  shows "set (m_downloads m) = stripDownload ` set (downloads s')"
  using main_compiled(3)[OF run ok] by (simp add: set_array_sort)

text \<open>
  Claim C3, amended. In a successful run (UUIDs drawn pairwise distinct, 36 characters),
  every installation of the manifest is the compiled form of an installation \<open>i\<close> of
  the catalog; a \<open>_localPath\<close> or \<open>_url\<close> of \<open>i\<close> that is not the empty string
  is absent from it; when \<open>i\<close> has a \<open>_localPath\<close> or a \<open>_url\<close>, its
  \<open>download\<close> is the id of a record of the manifest's \<open>downloads\<close>; when \<open>i\<close> has
  neither, its \<open>download\<close> field is left as it was.
\<close>

theorem compiled_installation_references:
  assumes run: "main e dist cat = (Inr m, s')" and ok: "uuids_ok e (uuid_next s')"
  shows "\<forall>f\<in>set (m_fonts m). \<forall>obj\<in>set (f_installations f).
           \<exists>i\<in>set (installationsOf cat).
              obj = compiledInstallation e (downloads s') i
            \<and> (i_localPath i \<noteq> Some [] \<longrightarrow> i_localPath obj = None)
            \<and> (i_url i \<noteq> Some [] \<longrightarrow> i_url obj = None)
            \<and> (i_localPath i \<noteq> None \<or> i_url i \<noteq> None \<longrightarrow>
                 (\<exists>d\<in>set (m_downloads m). i_download obj = Some (o_id d)))
            \<and> (i_localPath i = None \<and> i_url i = None \<longrightarrow> i_download obj = i_download i)"
proof (intro ballI)
  fix f obj assume "f \<in> set (m_fonts m)" "obj \<in> set (f_installations f)"
  from compiled_installation_source[OF run ok this] obtain i where
    i: "i \<in> set (installationsOf cat)" "obj = compiledInstallation e (downloads s') i"
    by blast
  have lp: "i_localPath i \<noteq> Some [] \<longrightarrow> i_localPath obj = None"
    by (cases "i_localPath i") (simp_all add: i(2) compiledInstallation_references truthy_def)
  have url: "i_url i \<noteq> Some [] \<longrightarrow> i_url obj = None"
    by (cases "i_url i") (simp_all add: i(2) compiledInstallation_references truthy_def)
  have dl: "i_localPath i \<noteq> None \<or> i_url i \<noteq> None \<longrightarrow>
             (\<exists>d\<in>set (m_downloads m). i_download obj = Some (o_id d))"
  proof
    assume ref: "i_localPath i \<noteq> None \<or> i_url i \<noteq> None"
    from assigned_in_registry[OF ref main_compiled(5)[OF run ok i(1)]] obtain d where
      d: "d \<in> set (downloads s')" "assigned e (downloads s') i = Some (d_id d)"
      by blast
    from d(1) have "stripDownload d \<in> set (m_downloads m)"
      by (simp add: stripped_in_manifest[OF run ok])
    moreover have "i_download obj = Some (o_id (stripDownload d))"
      by (simp add: i(2) compiledInstallation_download d(2) stripDownload_def)
    ultimately show "\<exists>d\<in>set (m_downloads m). i_download obj = Some (o_id d)" by blast
  qed
  have pass: "i_localPath i = None \<and> i_url i = None \<longrightarrow> i_download obj = i_download i"
    by (simp add: i(2) compiledInstallation_download assigned_def)
  from i lp url dl pass
  show "\<exists>i\<in>set (installationsOf cat).
              obj = compiledInstallation e (downloads s') i
            \<and> (i_localPath i \<noteq> Some [] \<longrightarrow> i_localPath obj = None)
            \<and> (i_url i \<noteq> Some [] \<longrightarrow> i_url obj = None)
            \<and> (i_localPath i \<noteq> None \<or> i_url i \<noteq> None \<longrightarrow>
                 (\<exists>d\<in>set (m_downloads m). i_download obj = Some (o_id d)))
            \<and> (i_localPath i = None \<and> i_url i = None \<longrightarrow> i_download obj = i_download i)"
    by blast
qed

theorem compiled_installation_references_witness:
  "uuids_ok example_env (uuid_next (snd (main example_env None example_catalog)))
   \<and> (\<exists>i\<in>set (installationsOf example_catalog).
        hd (f_installations (hd (m_fonts (projr (fst (main example_env None example_catalog))))))
          = compiledInstallation example_env
              (downloads (snd (main example_env None example_catalog))) i)
   \<and> i_localPath (hd (f_installations (hd (m_fonts
        (projr (fst (main example_env None example_catalog)))))))  = None
   \<and> i_url (hd (f_installations (hd (m_fonts
        (projr (fst (main example_env None example_catalog)))))))  = None
   \<and> (\<exists>d\<in>set (m_downloads (projr (fst (main example_env None example_catalog)))).
        i_download (hd (f_installations (hd (m_fonts
          (projr (fst (main example_env None example_catalog))))))) = Some (o_id d))"
proof -
  let ?r = "fst (main example_env None example_catalog)"
  let ?s = "snd (main example_env None example_catalog)"
  let ?f = "hd (m_fonts (projr ?r))"
  let ?obj = "hd (f_installations ?f)"
  have r: "?r = Inr (projr ?r)" by code_simp
  then have run: "main example_env None example_catalog = (Inr (projr ?r), ?s)"
    by (metis prod.collapse)
  have ok: "uuids_ok example_env (uuid_next ?s)" by code_simp
  have f: "?f \<in> set (m_fonts (projr ?r))" by code_simp
  have obj: "?obj \<in> set (f_installations ?f)" by code_simp
  have src: "\<forall>i\<in>set (installationsOf example_catalog).
               i_localPath i \<noteq> Some [] \<and> i_url i \<noteq> Some []
               \<and> (i_localPath i \<noteq> None \<or> i_url i \<noteq> None)"
    by code_simp
  from compiled_installation_references[OF run ok] f obj
  obtain i where i: "i \<in> set (installationsOf example_catalog)"
     "?obj = compiledInstallation example_env (downloads ?s) i"
     "i_localPath i \<noteq> Some [] \<longrightarrow> i_localPath ?obj = None"
     "i_url i \<noteq> Some [] \<longrightarrow> i_url ?obj = None"
     "i_localPath i \<noteq> None \<or> i_url i \<noteq> None \<longrightarrow>
        (\<exists>d\<in>set (m_downloads (projr ?r)). i_download ?obj = Some (o_id d))"
    by blast
  with src ok show ?thesis by blast
qed

text \<open>
  Claim C3 as stated fails on \<open>catalog_odd_references\<close>: the first installation keeps
  its empty \<open>_url\<close> (the clean-up deletes a field only when its value is truthy), and
  the second, which has no dependency reference, is passed through with no
  \<open>download\<close>.
\<close>

theorem raw_reference_counterexample:
  "fst (main example_env None catalog_odd_references) =
     Inr \<lparr> m_version = ''1.0.0'',
           m_downloads =
             [\<lparr> o_id = ''3b241101-e2bb-4255-8caf-4136c566a962'',
                o_downloadURL = ''https://example.com/3b241101-e2bb-4255-8caf-4136c566a962.exe'',
                o_fileSize = 3, o_hash = ''aaa'' \<rparr>],
           m_fonts =
             [\<lparr> f_id = ''id-of-Arial'', f_name = ''Arial'', f_shortName = ''Arial'',
                f_publisher = ''Microsoft'', f_categories = [''monospace'', ''sans-serif''],
                f_installations =
                  [\<lparr> i_type = ''cabextract'', i_localPath = None, i_url = Some [],
                     i_download = Some ''3b241101-e2bb-4255-8caf-4136c566a962'',
                     i_files = Some [''arial.ttf''], i_other = [] \<rparr>,
                   \<lparr> i_type = ''cabextract'', i_localPath = None, i_url = None,
                     i_download = None, i_files = Some [''b.ttf''], i_other = [] \<rparr>],
                f_other = [] \<rparr>] \<rparr>"
  by code_simp


section \<open>The records of the downloads array\<close>

lemma main_sourced:
  assumes run: "main e dist cat = (Inr m, s')"
  shows "\<forall>p\<in>set (copied s'). \<exists>i\<in>set (installationsOf cat). i_localPath i = Some p"
    and "\<forall>u\<in>set (fetched s'). \<exists>i\<in>set (installationsOf cat). i_localPath i = None \<and> i_url i = Some u"
proof -
  from run obtain fs s1 where
    c: "compileFonts e (c_fonts cat) (initial\<lparr>outDir := Map.empty\<rparr>) = (Inr fs, s1)" and
    s': "s' = s1\<lparr>outDir := (outDir s1)(''fonts.json'' \<mapsto> Document (stringifyManifest m))\<rparr>"
    by (rule main_InrE)
  from sourced_compileFonts[OF c] have "sourced e (installationsOf cat) s1" .
  then show "\<forall>p\<in>set (copied s'). \<exists>i\<in>set (installationsOf cat). i_localPath i = Some p"
    and "\<forall>u\<in>set (fetched s'). \<exists>i\<in>set (installationsOf cat). i_localPath i = None \<and> i_url i = Some u"
    unfolding sourced_def s' by simp_all
qed

lemma registry_record_source:
  assumes run: "main e dist cat = (Inr m, s')" and ok: "uuids_ok e (uuid_next s')"
      and d: "d \<in> set (downloads s')"
  shows "(\<exists>i\<in>set (installationsOf cat). \<exists>p c. i_localPath i = Some p
            \<and> localProvenance e p c (outDir s') d)
       \<or> (\<exists>i\<in>set (installationsOf cat). \<exists>u status c. i_localPath i = None \<and> i_url i = Some u
            \<and> urlProvenance e u status c d)"
proof -
  from registry_invD(6)[OF main_compiled(1)[OF run ok] d] consider
    (loc) p c where "p \<in> set (copied s')" "localProvenance e p c (outDir s') d"
  | (url) u status c where "u \<in> set (fetched s')" "urlProvenance e u status c d"
    unfolding provenance_def by blast
  then show ?thesis
  proof cases
    case loc
    with main_sourced(1)[OF run] show ?thesis by blast
  next
    case url
    with main_sourced(2)[OF run] show ?thesis by blast
  qed
qed



text \<open>
  Claim C8 (construction of \<open>downloadURL\<close>). In a successful run (UUIDs drawn pairwise
  distinct, 36 characters) the records of the manifest's \<open>downloads\<close> and the records
  of the script's array correspond by their ids. A manifest record whose array record has
  type \<open>localFile\<close> comes from a local path \<open>p\<close> of the catalog: its
  \<open>downloadURL\<close> is the configured base URL prefix (the value of \<open>URL_PREFIX\<close>, or
  \<open>https://example.com/\<close> when it is unset or empty) followed by the encoding of its
  id and the extension of \<open>p\<close>, and the copy of the file is in the output directory
  under the id followed by that extension. A manifest record whose array record has type
  \<open>url\<close> comes from a URL \<open>u\<close> of the catalog and its \<open>downloadURL\<close> is
  \<open>u\<close> itself, whatever \<open>normalizeUrl\<close> makes of it.
\<close>

theorem downloadURL_construction:
  assumes run: "main e dist cat = (Inr m, s')" and ok: "uuids_ok e (uuid_next s')"
  shows "(\<forall>r\<in>set (m_downloads m). \<exists>d\<in>set (downloads s'). o_id r = d_id d
           \<and> ((d_type d = ''localFile''
                \<and> (\<exists>i\<in>set (installationsOf cat). \<exists>p c. i_localPath i = Some p
                     \<and> d_localFile d = Some (normalize e p)
                     \<and> o_downloadURL r =
                         (if env_URL_PREFIX e = None \<or> env_URL_PREFIX e = Some []
                          then ''https://example.com/'' else the (env_URL_PREFIX e))
                         @ encodeURIComponent e (o_id r @ extname e p)
                     \<and> localFiles e p = Some c
                     \<and> outDir s' (o_id r @ extname e p) = Some (Asset c)))
             \<or> (d_type d = ''url''
                \<and> (\<exists>i\<in>set (installationsOf cat). \<exists>u. i_localPath i = None \<and> i_url i = Some u
                     \<and> d_url d = normalizeUrl e u \<and> o_downloadURL r = u))))
     \<and> (\<forall>d\<in>set (downloads s'). \<exists>r\<in>set (m_downloads m). o_id r = d_id d)"
proof (intro conjI ballI)
  fix r assume "r \<in> set (m_downloads m)"
  then obtain d where d: "d \<in> set (downloads s')" "r = stripDownload d"
    by (auto simp: stripped_in_manifest[OF run ok])
  have pre: "urlPrefix e = (if env_URL_PREFIX e = None \<or> env_URL_PREFIX e = Some []
                          then ''https://example.com/'' else the (env_URL_PREFIX e))"
    by (cases "env_URL_PREFIX e") (simp_all add: urlPrefix_def truthy_def)
  from d(2) have f: "o_id r = d_id d" "o_downloadURL r = d_downloadURL d"
    by (simp_all add: stripDownload_def)
  from registry_record_source[OF run ok d(1)]
  have "(d_type d = ''localFile''
                \<and> (\<exists>i\<in>set (installationsOf cat). \<exists>p c. i_localPath i = Some p
                     \<and> d_localFile d = Some (normalize e p)
                     \<and> d_downloadURL d = urlPrefix e @ encodeURIComponent e (d_id d @ extname e p)
                     \<and> localFiles e p = Some c
                     \<and> outDir s' (d_id d @ extname e p) = Some (Asset c)))
             \<or> (d_type d = ''url''
                \<and> (\<exists>i\<in>set (installationsOf cat). \<exists>u. i_localPath i = None \<and> i_url i = Some u
                     \<and> d_url d = normalizeUrl e u \<and> d_downloadURL d = u))"
    unfolding localProvenance_def urlProvenance_def
    by (elim disjE bexE exE conjE) (simp; blast)+
  with d(1) show "\<exists>d\<in>set (downloads s'). o_id r = d_id d
           \<and> ((d_type d = ''localFile''
                \<and> (\<exists>i\<in>set (installationsOf cat). \<exists>p c. i_localPath i = Some p
                     \<and> d_localFile d = Some (normalize e p)
                     \<and> o_downloadURL r =
                         (if env_URL_PREFIX e = None \<or> env_URL_PREFIX e = Some []
                          then ''https://example.com/'' else the (env_URL_PREFIX e))
                         @ encodeURIComponent e (o_id r @ extname e p)
                     \<and> localFiles e p = Some c
                     \<and> outDir s' (o_id r @ extname e p) = Some (Asset c)))
             \<or> (d_type d = ''url''
                \<and> (\<exists>i\<in>set (installationsOf cat). \<exists>u. i_localPath i = None \<and> i_url i = Some u
                     \<and> d_url d = normalizeUrl e u \<and> o_downloadURL r = u)))"
    unfolding f pre[symmetric] by blast
next
  fix d assume "d \<in> set (downloads s')"
  then have "stripDownload d \<in> set (m_downloads m)"
    by (simp add: stripped_in_manifest[OF run ok])
  moreover have "o_id (stripDownload d) = d_id d" by (simp add: stripDownload_def)
  ultimately show "\<exists>r\<in>set (m_downloads m). o_id r = d_id d" by blast
qed

theorem downloadURL_construction_witness:
  "uuids_ok prefixed_env (uuid_next (snd (main prefixed_env None example_catalog)))
   \<and> env_URL_PREFIX prefixed_env = Some ''https://cdn.test/fonts/''
   \<and> normalizeUrl prefixed_env ''HTTP://Example.com/f'' = Some ''http://example.com/f''
   \<and> m_downloads (projr (fst (main prefixed_env None example_catalog))) =
       [\<lparr> o_id = ''3b241101-e2bb-4255-8caf-4136c566a962'',
          o_downloadURL = ''HTTP://Example.com/f'', o_fileSize = 2, o_hash = ''aa'' \<rparr>,
        \<lparr> o_id = ''9f1c7a52-0d6e-4c1b-a5b3-7e2d4f6a8b90'',
          o_downloadURL = ''https://cdn.test/fonts/9f1c7a52-0d6e-4c1b-a5b3-7e2d4f6a8b90.exe'',
          o_fileSize = 3, o_hash = ''aaa'' \<rparr>]
   \<and> (\<exists>d\<in>set (downloads (snd (main prefixed_env None example_catalog))).
         ''9f1c7a52-0d6e-4c1b-a5b3-7e2d4f6a8b90'' = d_id d
       \<and> ((d_type d = ''localFile''
            \<and> (\<exists>i\<in>set (installationsOf example_catalog). \<exists>p c. i_localPath i = Some p
                 \<and> d_localFile d = Some (normalize prefixed_env p)
                 \<and> ''https://cdn.test/fonts/9f1c7a52-0d6e-4c1b-a5b3-7e2d4f6a8b90.exe'' =
                     ''https://cdn.test/fonts/''
                     @ encodeURIComponent prefixed_env
                         (''9f1c7a52-0d6e-4c1b-a5b3-7e2d4f6a8b90'' @ extname prefixed_env p)
                 \<and> localFiles prefixed_env p = Some c
                 \<and> outDir (snd (main prefixed_env None example_catalog))
                      (''9f1c7a52-0d6e-4c1b-a5b3-7e2d4f6a8b90'' @ extname prefixed_env p)
                    = Some (Asset c)))
          \<or> (d_type d = ''url''
            \<and> (\<exists>i\<in>set (installationsOf example_catalog). \<exists>u. i_localPath i = None
                 \<and> i_url i = Some u \<and> d_url d = normalizeUrl prefixed_env u
                 \<and> ''https://cdn.test/fonts/9f1c7a52-0d6e-4c1b-a5b3-7e2d4f6a8b90.exe'' = u))))"
proof -
  let ?r = "fst (main prefixed_env None example_catalog)"
  let ?s = "snd (main prefixed_env None example_catalog)"
  have r: "?r = Inr (projr ?r)" by code_simp
  then have run: "main prefixed_env None example_catalog = (Inr (projr ?r), ?s)"
    by (metis prod.collapse)
  have ok: "uuids_ok prefixed_env (uuid_next ?s)" by code_simp
  have pre: "env_URL_PREFIX prefixed_env = Some ''https://cdn.test/fonts/''" by code_simp
  have nu: "normalizeUrl prefixed_env ''HTTP://Example.com/f'' = Some ''http://example.com/f''"
    by code_simp
  have ds: "m_downloads (projr ?r) =
       [\<lparr> o_id = ''3b241101-e2bb-4255-8caf-4136c566a962'',
          o_downloadURL = ''HTTP://Example.com/f'', o_fileSize = 2, o_hash = ''aa'' \<rparr>,
        \<lparr> o_id = ''9f1c7a52-0d6e-4c1b-a5b3-7e2d4f6a8b90'',
          o_downloadURL = ''https://cdn.test/fonts/9f1c7a52-0d6e-4c1b-a5b3-7e2d4f6a8b90.exe'',
          o_fileSize = 3, o_hash = ''aaa'' \<rparr>]"
    by code_simp
  from downloadURL_construction[OF run ok, unfolded ds pre] ok pre nu ds show ?thesis
    by simp
qed


section \<open>The shape of the manifest\<close>

text \<open>
  Claim C10 (output projection). When the build succeeds, the document written to
  \<open>fonts.json\<close> of the output directory is an object with exactly the fields
  \<open>version\<close>, \<open>downloads\<close> and \<open>fonts\<close> (so the \<open>groups\<close> of the catalog are not
  in it), and every element of \<open>fonts\<close> is an object with exactly the fields
  \<open>id\<close>, \<open>name\<close>, \<open>shortName\<close>, \<open>publisher\<close>, \<open>categories\<close> and
  \<open>installations\<close>: no other attribute of a font of the catalog is kept.
\<close>

theorem output_projection:
  assumes run: "main e dist cat = (Inr m, s')"
  shows "outDir s' ''fonts.json'' = Some (Document (stringifyManifest m))
     \<and> (\<exists>v ds fs. stringifyManifest m =
            JObject [(''version'', v), (''downloads'', JArray ds), (''fonts'', JArray fs)]
          \<and> (\<forall>f\<in>set fs. \<exists>a b c d cs objs. f =
                JObject [(''id'', a), (''name'', b), (''shortName'', c), (''publisher'', d),
                         (''categories'', cs), (''installations'', objs)]))
     \<and> (\<forall>f\<in>set (m_fonts m). f_other f = [])"
proof -
  from run obtain fs s1 where
    m: "m = \<lparr> m_version = version e,
           m_downloads = array_sort sortById (map stripDownload (downloads s1)),
           m_fonts = map font (array_sort sortByName fs) \<rparr>" and
    s': "s' = s1\<lparr>outDir := (outDir s1)(''fonts.json'' \<mapsto> Document (stringifyManifest m))\<rparr>"
    by (rule main_InrE)
  from m have other: "\<forall>f\<in>set (m_fonts m). f_other f = []"
    by (auto simp: font_def)
  then have "\<forall>f\<in>set (map stringifyFont (m_fonts m)). \<exists>a b c d cs objs. f =
                JObject [(''id'', a), (''name'', b), (''shortName'', c), (''publisher'', d),
                         (''categories'', cs), (''installations'', objs)]"
    by (auto simp: stringifyFont_def)
  then have "\<exists>v ds fs. stringifyManifest m =
            JObject [(''version'', v), (''downloads'', JArray ds), (''fonts'', JArray fs)]
          \<and> (\<forall>f\<in>set fs. \<exists>a b c d cs objs. f =
                JObject [(''id'', a), (''name'', b), (''shortName'', c), (''publisher'', d),
                         (''categories'', cs), (''installations'', objs)])"
    unfolding stringifyManifest_def by blast
  moreover have "outDir s' ''fonts.json'' = Some (Document (stringifyManifest m))"
    by (simp add: s')
  ultimately show ?thesis using other by blast
qed

theorem output_projection_witness:
  "c_groups example_catalog \<noteq> None
   \<and> map f_other (c_fonts example_catalog)
        = [[(''license'', JString ''EULA'')], [(''license'', JString ''EULA'')]]
   \<and> outDir (snd (main example_env None example_catalog)) ''fonts.json''
        = Some (Document (stringifyManifest (projr (fst (main example_env None example_catalog)))))
   \<and> (\<exists>v ds fs. stringifyManifest (projr (fst (main example_env None example_catalog))) =
            JObject [(''version'', v), (''downloads'', JArray ds), (''fonts'', JArray fs)])
   \<and> map f_other (m_fonts (projr (fst (main example_env None example_catalog)))) = [[], []]"
proof -
  let ?r = "fst (main example_env None example_catalog)"
  let ?s = "snd (main example_env None example_catalog)"
  have r: "?r = Inr (projr ?r)" by code_simp
  then have run: "main example_env None example_catalog = (Inr (projr ?r), ?s)"
    by (metis prod.collapse)
  have a: "c_groups example_catalog \<noteq> None" by code_simp
  have b: "map f_other (c_fonts example_catalog)
        = [[(''license'', JString ''EULA'')], [(''license'', JString ''EULA'')]]" by code_simp
  have n: "length (m_fonts (projr ?r)) = 2" by code_simp
  from output_projection[OF run] have "\<forall>f\<in>set (m_fonts (projr ?r)). f_other f = []"
    by blast
  then have "map f_other (m_fonts (projr ?r)) = map (\<lambda>f. []) (m_fonts (projr ?r))"
    by simp
  with n have c: "map f_other (m_fonts (projr ?r)) = [[], []]"
    by (cases "m_fonts (projr ?r)"; simp) (rename_tac a list, case_tac list; simp)
  from output_projection[OF run] a b c show ?thesis by blast
qed

section \<open>Failed builds\<close>





section \<open>The order of the manifest\<close>

lemma sortByDownloadID_le:
  assumes "i_download a \<noteq> None" and "i_download b \<noteq> None"
  shows "sortByDownloadID a b \<le> 0 \<longleftrightarrow>
           i_type a < i_type b \<or> (i_type a = i_type b \<and> the (i_download a) \<le> the (i_download b))"
  using assms by (auto simp: sortByDownloadID_def js_lt_def)

lemma sorted_by_type_then_download:
  assumes "\<forall>i\<in>set xs. i_download i \<noteq> None"
  shows "sorted_wrt (\<lambda>a b. i_type a < i_type b
            \<or> (i_type a = i_type b \<and> the (i_download a) \<le> the (i_download b)))
           (array_sort sortByDownloadID xs)"
proof -
  have "sorted_wrt (\<lambda>a b. sortByDownloadID a b \<le> 0) (array_sort sortByDownloadID xs)"
  proof (rule sorted_array_sort)
    fix a b assume "a \<in> set xs" "b \<in> set xs"
    with assms show "sortByDownloadID a b \<le> 0 \<or> sortByDownloadID b a \<le> 0"
      by (auto simp: sortByDownloadID_le)
  next
    fix a b c assume "a \<in> set xs" "b \<in> set xs" "c \<in> set xs"
      "sortByDownloadID a b \<le> 0" "sortByDownloadID b c \<le> 0"
    with assms show "sortByDownloadID a c \<le> 0"
      by (auto simp: sortByDownloadID_le)
  qed
  then show ?thesis
  proof (rule sorted_wrt_mono_rel[rotated])
    fix a b assume "a \<in> set (array_sort sortByDownloadID xs)" "b \<in> set (array_sort sortByDownloadID xs)"
      "sortByDownloadID a b \<le> 0"
    with assms show "i_type a < i_type b
            \<or> (i_type a = i_type b \<and> the (i_download a) \<le> the (i_download b))"
      by (simp add: set_array_sort sortByDownloadID_le)
  qed
qed

lemma sorted_by_name: "sorted_wrt (\<lambda>a b. f_name a \<le> f_name b) (array_sort sortByName xs)"
proof -
  have "sorted_wrt (\<lambda>a b. sortByName a b \<le> 0) (array_sort sortByName xs)"
    by (rule sorted_array_sort) (auto simp: sortByName_def split: if_splits)
  moreover have "(\<lambda>a b. sortByName a b \<le> 0) = (\<lambda>a b. f_name a \<le> f_name b)"
    by (auto simp: sortByName_def fun_eq_iff)
  ultimately show ?thesis by simp
qed

lemma sorted_by_id: "sorted_wrt (\<lambda>a b. o_id a \<le> o_id b) (array_sort sortById xs)"
proof -
  have "sorted_wrt (\<lambda>a b. sortById a b \<le> 0) (array_sort sortById xs)"
    by (rule sorted_array_sort) (auto simp: sortById_def split: if_splits)
  moreover have "(\<lambda>a b. sortById a b \<le> 0) = (\<lambda>a b. o_id a \<le> o_id b)"
    by (auto simp: sortById_def fun_eq_iff)
  ultimately show ?thesis by simp
qed

lemma font_name: "f_name (font f) = f_name f"
  by (simp add: font_def)

lemma sorted_fonts: "sorted_wrt (\<lambda>a b. f_name a \<le> f_name b) (map font (array_sort sortByName xs))"
  using sorted_by_name[of xs] by (simp add: sorted_wrt_map font_name)

lemma compiledInstallation_files:
  assumes "i_type (compiledInstallation e ds i) = ''cabextract''"
      and "i_files (compiledInstallation e ds i) = Some fs"
  shows "sorted fs"
  using assms
  by (auto simp: compiledInstallation_def Let_def cleanUp_type sorted_array_sort_default
           split: if_splits)

subsection \<open>The run reads only the UUIDs it draws\<close>

lemma downloadExistsLocalFile_uuid:
  "downloadExistsLocalFile (e\<lparr>randomUUID := g\<rparr>) ds p = downloadExistsLocalFile e ds p"
  by (induction ds) simp_all

lemma downloadExistsURL_uuid:
  "downloadExistsURL (e\<lparr>randomUUID := g\<rparr>) ds u = downloadExistsURL e ds u"
  by (induction ds) (simp_all split: option.splits)

lemma addLocalFileDownload_uuid:
  "g (uuid_next s) = randomUUID e (uuid_next s) \<Longrightarrow>
   addLocalFileDownload (e\<lparr>randomUUID := g\<rparr>) p s = addLocalFileDownload e p s"
  by (simp add: addLocalFileDownload_def urlPrefix_def computeFileHash_def Let_def
           split: option.splits)

lemma addURLDownload_uuid:
  "g (uuid_next s) = randomUUID e (uuid_next s) \<Longrightarrow>
   addURLDownload (e\<lparr>randomUUID := g\<rparr>) u s = addURLDownload e u s"
  by (simp add: addURLDownload_def computeFileHash_def Let_def
           split: response.splits sum.splits option.splits)

lemma addLocalFileDownload_draws:
  "addLocalFileDownload e p s = (r, s') \<Longrightarrow> uuid_next s' = Suc (uuid_next s)"
  by (cases r) (auto dest: addLocalFileDownload_Inl addLocalFileDownload_Inr)

lemma addURLDownload_draws:
  "addURLDownload e u s = (r, s') \<Longrightarrow> uuid_next s' = Suc (uuid_next s)"
  by (cases r) (auto dest: addURLDownload_Inl addURLDownload_Inr)

lemma addFromObject_uuid:
  assumes run: "addFromObject e obj s = (r, s1)"
      and agree: "uuid_next s < uuid_next s1 \<longrightarrow> g (uuid_next s) = randomUUID e (uuid_next s)"
  shows "addFromObject (e\<lparr>randomUUID := g\<rparr>) obj s = (r, s1)"
proof (cases "i_localPath obj")
  case (Some p)
  note eq = addFromObject_local[OF Some, of e s]
    and eq' = addFromObject_local[OF Some, of "e\<lparr>randomUUID := g\<rparr>" s]
  show ?thesis
  proof (cases "truthy (downloadExistsLocalFile e (downloads s) p)")
    case True
    with run eq eq' show ?thesis by (auto simp: downloadExistsLocalFile_uuid)
  next
    case False
    obtain x s2 where add: "addLocalFileDownload e p s = (x, s2)" by (cases "addLocalFileDownload e p s")
    with run eq False have "s1 = s2" by (auto split: sum.splits)
    with addLocalFileDownload_draws[OF add] agree
    have "g (uuid_next s) = randomUUID e (uuid_next s)" by simp
    from addLocalFileDownload_uuid[where g = g and e = e and s = s and p = p, OF this] run eq eq' False show ?thesis
      by (auto simp: downloadExistsLocalFile_uuid)
  qed
next
  case None
  show ?thesis
  proof (cases "i_url obj")
    case n2: None
    from run addFromObject_neither[OF None n2, of e s]
      addFromObject_neither[OF None n2, of "e\<lparr>randomUUID := g\<rparr>" s]
    show ?thesis by auto
  next
    case (Some u)
    note eq = addFromObject_url[OF None Some, of e s]
      and eq' = addFromObject_url[OF None Some, of "e\<lparr>randomUUID := g\<rparr>" s]
    show ?thesis
    proof (cases "downloadExistsURL e (downloads s) u")
      case (Inl err)
      with run eq eq' show ?thesis by (auto simp: downloadExistsURL_uuid)
    next
      case (Inr x)
      show ?thesis
      proof (cases "truthy x")
        case True
        with run eq eq' Inr show ?thesis by (auto simp: downloadExistsURL_uuid)
      next
        case False
        obtain y s2 where add: "addURLDownload e u s = (y, s2)" by (cases "addURLDownload e u s")
        with run eq False Inr have "s1 = s2" by (auto split: sum.splits)
        with addURLDownload_draws[OF add] agree
        have "g (uuid_next s) = randomUUID e (uuid_next s)" by simp
        from addURLDownload_uuid[where g = g and e = e and s = s and u = u, OF this] run eq eq' False Inr show ?thesis
          by (auto simp: downloadExistsURL_uuid)
      qed
    qed
  qed
qed

lemma compileInstallations_uuid:
  assumes "compileInstallations e objs s = (Inr objs', s')"
      and "\<forall>k. uuid_next s \<le> k \<and> k < uuid_next s' \<longrightarrow> g k = randomUUID e k"
  shows "compileInstallations (e\<lparr>randomUUID := g\<rparr>) objs s = (Inr objs', s')"
  using assms
proof (induction objs arbitrary: s objs')
  case Nil
  then show ?case by simp
next
  case (Cons obj objs)
  from Cons.prems(1) obtain o1 s1 o2 os where
    a: "addFromObject e obj s = (Inr o1, s1)" and
    f: "sortFiles o1 = Inr o2" and
    c: "compileInstallations e objs s1 = (Inr os, s')" and
    r: "objs' = o2 # os"
    by (auto split: prod.splits sum.splits)
  from addFromObject_extends[OF a] have le0: "uuid_next s \<le> uuid_next s1"
    by (simp add: extends_def)
  from compileInstallations_extends[OF c] have le1: "uuid_next s1 \<le> uuid_next s'"
    by (simp add: extends_def)
  from Cons.prems(2) le1
  have "uuid_next s < uuid_next s1 \<longrightarrow> g (uuid_next s) = randomUUID e (uuid_next s)"
    by auto
  from addFromObject_uuid[where g = g, OF a this]
  have a': "addFromObject (e\<lparr>randomUUID := g\<rparr>) obj s = (Inr o1, s1)" .
  from Cons.prems(2) le0
  have "\<forall>k. uuid_next s1 \<le> k \<and> k < uuid_next s' \<longrightarrow> g k = randomUUID e k" by auto
  from Cons.IH[OF c this]
  have "compileInstallations (e\<lparr>randomUUID := g\<rparr>) objs s1 = (Inr os, s')" .
  with a' f r show ?case by simp
qed

lemma compileFonts_uuid:
  assumes "compileFonts e fs s = (Inr fs', s')"
      and "\<forall>k. uuid_next s \<le> k \<and> k < uuid_next s' \<longrightarrow> g k = randomUUID e k"
  shows "compileFonts (e\<lparr>randomUUID := g\<rparr>) fs s = (Inr fs', s')"
  using assms
proof (induction fs arbitrary: s fs')
  case Nil
  then show ?case by simp
next
  case (Cons f fs)
  from Cons.prems(1) obtain objs s1 fs1 where
    a: "compileInstallations e (f_installations f) s = (Inr objs, s1)" and
    c: "compileFonts e fs s1 = (Inr fs1, s')" and
    r: "fs' = f\<lparr>f_installations := array_sort sortByDownloadID objs\<rparr> # fs1"
    by (auto split: prod.splits sum.splits)
  from compileInstallations_extends[OF a] have le0: "uuid_next s \<le> uuid_next s1"
    by (simp add: extends_def)
  from compileFonts_extends[OF c] have le1: "uuid_next s1 \<le> uuid_next s'"
    by (simp add: extends_def)
  from Cons.prems(2) le1
  have "\<forall>k. uuid_next s \<le> k \<and> k < uuid_next s1 \<longrightarrow> g k = randomUUID e k" by auto
  from compileInstallations_uuid[where g = g, OF a this]
  have a': "compileInstallations (e\<lparr>randomUUID := g\<rparr>) (f_installations f) s = (Inr objs, s1)" .
  from Cons.prems(2) le0
  have "\<forall>k. uuid_next s1 \<le> k \<and> k < uuid_next s' \<longrightarrow> g k = randomUUID e k" by auto
  from Cons.IH[OF c this]
  have "compileFonts (e\<lparr>randomUUID := g\<rparr>) fs s1 = (Inr fs1, s')" .
  with a' r show ?case by simp
qed

lemma main_uuid:
  assumes run: "main e dist cat = (Inr m, s')"
      and agree: "\<forall>k<uuid_next s'. g k = randomUUID e k"
  shows "main (e\<lparr>randomUUID := g\<rparr>) dist2 cat = (Inr m, s')"
proof -
  from run obtain fs s1 where
    c: "compileFonts e (c_fonts cat) (initial\<lparr>outDir := Map.empty\<rparr>) = (Inr fs, s1)" and
    m: "m = \<lparr> m_version = version e,
           m_downloads = array_sort sortById (map stripDownload (downloads s1)),
           m_fonts = map font (array_sort sortByName fs) \<rparr>" and
    s': "s' = s1\<lparr>outDir := (outDir s1)(''fonts.json'' \<mapsto> Document (stringifyManifest m))\<rparr>"
    by (rule main_InrE)
  from agree have "\<forall>k. uuid_next (initial\<lparr>outDir := Map.empty\<rparr>) \<le> k \<and> k < uuid_next s1
                     \<longrightarrow> g k = randomUUID e k"
    by (simp add: s')
  from compileFonts_uuid[where g = g, OF c this]
  have c': "compileFonts (e\<lparr>randomUUID := g\<rparr>) (c_fonts cat) (initial\<lparr>outDir := Map.empty\<rparr>)
              = (Inr fs, s1)" .
  have dir: "(case dist2 of None \<Rightarrow> Map.empty | Some old \<Rightarrow> Map.empty)
             = (Map.empty :: string \<rightharpoonup> file_content)"
    by (cases dist2) simp_all
  show ?thesis
    unfolding main_def Let_def dir c' using m s' by (simp add: version_def)
qed


text \<open>
  What the sorts of the build script establish. In a successful run (UUIDs drawn pairwise
  distinct, 36 characters) the fonts of the manifest are sorted by name and its downloads
  by id; the categories of every font are sorted; the files of every \<open>cabextract\<close>
  installation are sorted; and the installations of a font are sorted by type and then by
  download id when all of them carry a download id. The manifest depends on the UUID
  generator only through the ids drawn in the run: a compile of the same catalog in the
  same environment that draws the same ids in the same order returns the same manifest.
\<close>

lemma sorted_manifest:
  assumes run: "main e dist cat = (Inr m, s')" and ok: "uuids_ok e (uuid_next s')"
  shows "sorted_wrt (\<lambda>a b. f_name a \<le> f_name b) (m_fonts m)
     \<and> sorted_wrt (\<lambda>a b. o_id a \<le> o_id b) (m_downloads m)
     \<and> (\<forall>f\<in>set (m_fonts m).
           sorted (f_categories f)
         \<and> (\<forall>obj\<in>set (f_installations f). i_type obj = ''cabextract'' \<longrightarrow>
               (\<forall>fs. i_files obj = Some fs \<longrightarrow> sorted fs))
         \<and> ((\<forall>obj\<in>set (f_installations f). i_download obj \<noteq> None) \<longrightarrow>
               sorted_wrt (\<lambda>a b. i_type a < i_type b
                    \<or> (i_type a = i_type b \<and> the (i_download a) \<le> the (i_download b)))
                 (f_installations f)))
     \<and> (\<forall>g dist2. (\<forall>k<uuid_next s'. g k = randomUUID e k) \<longrightarrow>
           main (e\<lparr>randomUUID := g\<rparr>) dist2 cat = (Inr m, s'))"
proof (intro conjI ballI allI impI)
  from main_compiled(4)[OF run ok] show "sorted_wrt (\<lambda>a b. f_name a \<le> f_name b) (m_fonts m)"
    by (simp only: sorted_fonts)
next
  from main_compiled(3)[OF run ok] show "sorted_wrt (\<lambda>a b. o_id a \<le> o_id b) (m_downloads m)"
    by (simp only: sorted_by_id)
next
  fix f assume "f \<in> set (m_fonts m)"
  with main_compiled(4)[OF run ok] obtain g where "f = font g" by auto
  then show "sorted (f_categories f)"
    by (simp add: font_def sorted_array_sort_default)
next
  fix f obj fs
  assume f: "f \<in> set (m_fonts m)" and obj: "obj \<in> set (f_installations f)"
     and "i_type obj = ''cabextract''" "i_files obj = Some fs"
  with compiled_installation_source[OF run ok f obj] show "sorted fs"
    by (auto dest: compiledInstallation_files)
next
  fix f
  assume f: "f \<in> set (m_fonts m)" and dl: "\<forall>obj\<in>set (f_installations f). i_download obj \<noteq> None"
  from f main_compiled(4)[OF run ok] obtain g where g: "f = font g" by auto
  then have eq: "f_installations f = array_sort sortByDownloadID (f_installations g)"
    by (simp add: font_def)
  with dl have "\<forall>i\<in>set (f_installations g). i_download i \<noteq> None"
    by (simp add: set_array_sort)
  from sorted_by_type_then_download[OF this]
  show "sorted_wrt (\<lambda>a b. i_type a < i_type b
                    \<or> (i_type a = i_type b \<and> the (i_download a) \<le> the (i_download b)))
                 (f_installations f)"
    by (simp only: eq)
next
  fix g dist2
  assume "\<forall>k<uuid_next s'. g k = randomUUID e k"
  with run show "main (e\<lparr>randomUUID := g\<rparr>) dist2 cat = (Inr m, s')"
    by (rule main_uuid)
qed

lemma sorted_manifest_example:
  "uuids_ok example_env (uuid_next (snd (main example_env None example_catalog)))
   \<and> map f_name (m_fonts (projr (fst (main example_env None example_catalog))))
        = [''Arial'', ''Verdana'']
   \<and> sorted_wrt (\<lambda>a b. f_name a \<le> f_name b)
        (m_fonts (projr (fst (main example_env None example_catalog))))
   \<and> sorted_wrt (\<lambda>a b. o_id a \<le> o_id b)
        (m_downloads (projr (fst (main example_env None example_catalog))))
   \<and> sorted_wrt (\<lambda>a b. i_type a < i_type b
          \<or> (i_type a = i_type b \<and> the (i_download a) \<le> the (i_download b)))
        (f_installations (hd (m_fonts (projr (fst (main example_env None example_catalog))))))
   \<and> fst (main (example_env\<lparr>randomUUID :=
              (\<lambda>k. if k < 2 then example_uuid k else [])\<rparr>)
           (Some Map.empty) example_catalog)
      = fst (main example_env None example_catalog)"
proof -
  let ?r = "fst (main example_env None example_catalog)"
  let ?s = "snd (main example_env None example_catalog)"
  let ?f = "hd (m_fonts (projr ?r))"
  have r: "?r = Inr (projr ?r)" by code_simp
  then have run: "main example_env None example_catalog = (Inr (projr ?r), ?s)"
    by (metis prod.collapse)
  have ok: "uuids_ok example_env (uuid_next ?s)" by code_simp
  have names: "map f_name (m_fonts (projr ?r)) = [''Arial'', ''Verdana'']" by code_simp
  have f: "?f \<in> set (m_fonts (projr ?r))" by code_simp
  have dl: "\<forall>obj\<in>set (f_installations ?f). i_download obj \<noteq> None" by code_simp
  have n: "uuid_next ?s = 2" by code_simp
  have agree: "\<forall>k<uuid_next ?s. (\<lambda>k. if k < 2 then example_uuid k else []) k
                 = randomUUID example_env k"
    unfolding n by (simp add: example_env_def)
  note th = sorted_manifest[OF run ok]
  from th have a: "sorted_wrt (\<lambda>a b. f_name a \<le> f_name b) (m_fonts (projr ?r))"
    and b: "sorted_wrt (\<lambda>a b. o_id a \<le> o_id b) (m_downloads (projr ?r))"
    by blast+
  from th f dl have c: "sorted_wrt (\<lambda>a b. i_type a < i_type b
          \<or> (i_type a = i_type b \<and> the (i_download a) \<le> the (i_download b)))
        (f_installations ?f)"
    by blast
  have det: "main (example_env\<lparr>randomUUID := g\<rparr>) dist2 example_catalog = (Inr (projr ?r), ?s)"
    if "\<forall>k<uuid_next ?s. g k = randomUUID example_env k" for g dist2
    using th that by blast
  from det[OF agree] have "main (example_env\<lparr>randomUUID :=
              (\<lambda>k. if k < 2 then example_uuid k else [])\<rparr>)
           (Some Map.empty) example_catalog = (Inr (projr ?r), ?s)" .
  with r have d: "fst (main (example_env\<lparr>randomUUID :=
              (\<lambda>k. if k < 2 then example_uuid k else [])\<rparr>)
           (Some Map.empty) example_catalog) = ?r"
    by simp
  from ok names a b c d show ?thesis by blast
qed

text \<open>
  Claim C5 (canonical deterministic ordering: fonts by name, the installations of a font
  by type and then by download id, categories, files and downloads sorted). The comparator
  \<open>sortByDownloadID\<close>, which by its comments sorts by type first and then by download
  id, returns 0 as soon as one of the two installations has no \<open>download\<close>: such an
  installation compares equal to every installation of its type, and the comparator is
  no order. On \<open>catalog_pass_through\<close>, whose second installation has no dependency
  reference and is passed through, with the greater UUID drawn first, the three
  installations of the font, all of one type, are written in the order of the catalog:
  the installation with the greater download id comes before the one with the smaller.
\<close>

theorem installations_not_sorted_by_download:
  "fst (main swapped_env None catalog_pass_through) =
     Inr \<lparr> m_version = ''1.0.0'',
           m_downloads =
             [\<lparr> o_id = ''3b241101-e2bb-4255-8caf-4136c566a962'',
                o_downloadURL = ''https://example.com/3b241101-e2bb-4255-8caf-4136c566a962.exe'',
                o_fileSize = 3, o_hash = ''aaa'' \<rparr>,
              \<lparr> o_id = ''9f1c7a52-0d6e-4c1b-a5b3-7e2d4f6a8b90'',
                o_downloadURL = ''http://example.com/f'', o_fileSize = 2, o_hash = ''aa'' \<rparr>],
           m_fonts =
             [\<lparr> f_id = ''id-of-Arial'', f_name = ''Arial'', f_shortName = ''Arial'',
                f_publisher = ''Microsoft'', f_categories = [''monospace'', ''sans-serif''],
                f_installations =
                  [\<lparr> i_type = ''cabextract'', i_localPath = None, i_url = None,
                     i_download = Some ''9f1c7a52-0d6e-4c1b-a5b3-7e2d4f6a8b90'',
                     i_files = Some [''arial.ttf''], i_other = [] \<rparr>,
                   \<lparr> i_type = ''cabextract'', i_localPath = None, i_url = None,
                     i_download = None, i_files = Some [''b.ttf''], i_other = [] \<rparr>,
                   \<lparr> i_type = ''cabextract'', i_localPath = None, i_url = None,
                     i_download = Some ''3b241101-e2bb-4255-8caf-4136c566a962'',
                     i_files = Some [''c.ttf''], i_other = [] \<rparr>],
                f_other = [] \<rparr>] \<rparr>
   \<and> ''3b241101-e2bb-4255-8caf-4136c566a962'' < ''9f1c7a52-0d6e-4c1b-a5b3-7e2d4f6a8b90''
   \<and> sortByDownloadID
         \<lparr> i_type = ''cabextract'', i_localPath = None, i_url = None,
           i_download = Some ''9f1c7a52-0d6e-4c1b-a5b3-7e2d4f6a8b90'',
           i_files = Some [''arial.ttf''], i_other = [] \<rparr>
         \<lparr> i_type = ''cabextract'', i_localPath = None, i_url = None,
           i_download = None, i_files = Some [''b.ttf''], i_other = [] \<rparr> = 0
   \<and> sortByDownloadID
         \<lparr> i_type = ''cabextract'', i_localPath = None, i_url = None,
           i_download = None, i_files = Some [''b.ttf''], i_other = [] \<rparr>
         \<lparr> i_type = ''cabextract'', i_localPath = None, i_url = None,
           i_download = Some ''3b241101-e2bb-4255-8caf-4136c566a962'',
           i_files = Some [''c.ttf''], i_other = [] \<rparr> = 0
   \<and> sortByDownloadID
         \<lparr> i_type = ''cabextract'', i_localPath = None, i_url = None,
           i_download = Some ''9f1c7a52-0d6e-4c1b-a5b3-7e2d4f6a8b90'',
           i_files = Some [''arial.ttf''], i_other = [] \<rparr>
         \<lparr> i_type = ''cabextract'', i_localPath = None, i_url = None,
           i_download = Some ''3b241101-e2bb-4255-8caf-4136c566a962'',
           i_files = Some [''c.ttf''], i_other = [] \<rparr> = 1"
  by code_simp


section \<open>The formatting pass\<close>

lemma sortFiles_unordered:
  assumes "sortFiles obj = Inr obj'"
  shows "unorderedInstallation obj' = unorderedInstallation obj"
proof -
  have "mset (array_sort_default fs) = mset fs" for fs
    by (simp add: array_sort_default_def mset_array_sort)
  with sortFiles_Inr[OF assms] show ?thesis
    by (cases "i_files obj") (simp_all add: unorderedInstallation_def)
qed

lemma sortSourceFiles_unordered:
  assumes "sortSourceFiles xs = Inr ys"
  shows "map unorderedInstallation ys = map unorderedInstallation xs"
  using assms
proof (induction xs arbitrary: ys)
  case Nil
  then show ?case by simp
next
  case (Cons x xs)
  from Cons.prems obtain x' xs' where
    "sortFiles x = Inr x'" "sortSourceFiles xs = Inr xs'" "ys = x' # xs'"
    by (auto split: sum.splits)
  with Cons.IH[of xs'] show ?case by (simp add: sortFiles_unordered)
qed

lemma unorderedFont_installations:
  assumes "mset (map unorderedInstallation xs) = mset (map unorderedInstallation (f_installations f))"
  shows "unorderedFont (f\<lparr>f_installations := xs\<rparr>) = unorderedFont f"
  using assms by (simp add: unorderedFont_def)

lemma formatFonts_unordered:
  assumes "formatFonts e fs uuids = Inr (fs', uuids')"
  shows "map unorderedFont fs' = map unorderedFont (replaceSentinels e (length uuids) fs)"
  using assms
proof (induction fs arbitrary: uuids fs')
  case Nil
  then show ?case by simp
next
  case (Cons f fs)
  let ?f1 = "if f_id f = ''<UUID>'' then f\<lparr>f_id := randomUUID e (length uuids)\<rparr> else f"
  let ?uuids1 = "if f_id f = ''<UUID>'' then uuids @ [f_id ?f1] else uuids"
  from Cons.prems obtain sources rest where
    s: "sortSourceFiles (array_sort sortByTypeThenLocalPathOrURL (f_installations ?f1)) = Inr sources" and
    r: "formatFonts e fs ?uuids1 = Inr (rest, uuids')" and
    fs': "fs' = ?f1\<lparr>f_installations := sources\<rparr> # rest"
    by (auto simp: Let_def split: sum.splits prod.splits)
  from sortSourceFiles_unordered[OF s]
  have "mset (map unorderedInstallation sources)
        = mset (map unorderedInstallation (array_sort sortByTypeThenLocalPathOrURL (f_installations ?f1)))"
    by simp
  also have "\<dots> = mset (map unorderedInstallation (f_installations ?f1))"
    by (simp add: mset_array_sort)
  finally have hd: "unorderedFont (?f1\<lparr>f_installations := sources\<rparr>) = unorderedFont ?f1"
    by (rule unorderedFont_installations)
  from Cons.IH[OF r] have tl: "map unorderedFont rest
      = map unorderedFont (replaceSentinels e (length ?uuids1) fs)" .
  show ?case
  proof (cases "f_id f = ''<UUID>''")
    case True
    with hd tl fs' show ?thesis by simp
  next
    case False
    with hd tl fs' show ?thesis by simp
  qed
qed

lemma unorderedFont_format_font:
  "unorderedFont (format_font f) = unorderedFont (f\<lparr>f_other := []\<rparr>)"
  by (simp add: unorderedFont_def format_font_def array_sort_default_def mset_array_sort)

lemma unorderedFont_drop_other:
  "unorderedFont f = unorderedFont g \<Longrightarrow>
   unorderedFont (f\<lparr>f_other := []\<rparr>) = unorderedFont (g\<lparr>f_other := []\<rparr>)"
  by (simp add: unorderedFont_def)

lemma map_unorderedFont_drop_other:
  assumes "map unorderedFont fs = map unorderedFont gs"
  shows "map unorderedFont (map (\<lambda>f. f\<lparr>f_other := []\<rparr>) fs)
         = map unorderedFont (map (\<lambda>f. f\<lparr>f_other := []\<rparr>) gs)"
proof -
  from assms have "list_all2 (\<lambda>f g. unorderedFont f = unorderedFont g) fs gs"
    by (simp add: list.rel_eq[symmetric] list.rel_map)
  then have "list_all2 (\<lambda>f g. unorderedFont (f\<lparr>f_other := []\<rparr>) = unorderedFont (g\<lparr>f_other := []\<rparr>)) fs gs"
    by (rule list_all2_mono) (rule unorderedFont_drop_other)
  then show ?thesis
    by (simp add: list.rel_eq[symmetric] list.rel_map)
qed

lemma replaceSentinels_frame:
  "list_all2 (\<lambda>f f'. if f_id f = ''<UUID>'' then \<exists>k. f' = f\<lparr>f_id := randomUUID e k\<rparr> else f' = f)
     fs (replaceSentinels e n fs)"
  by (induction fs arbitrary: n) auto

text \<open>
  Claim C9, amended. When \<open>format.js\<close> succeeds, the catalog it writes is, up to the
  order of its arrays, the catalog it read with the id of every font whose id is the
  sentinel \<open><UUID>\<close> replaced by a UUID drawn for it, and with every attribute of a font
  other than the six named ones dropped. A font whose id is not the sentinel is changed
  in nothing else; the installations keep their type, \<open>_localPath\<close>, \<open>_url\<close>,
  \<open>download\<close> and other attributes, the groups and the top level of the catalog keep
  all their attributes.
\<close>

theorem format_frame:
  assumes run: "format_main e c = Inr (c', written)"
  shows "unorderedCatalog c'
           = unorderedCatalog
               (c\<lparr>c_fonts := map (\<lambda>f. f\<lparr>f_other := []\<rparr>) (replaceSentinels e 0 (c_fonts c))\<rparr>)
     \<and> list_all2 (\<lambda>f f'. if f_id f = ''<UUID>'' then \<exists>k. f' = f\<lparr>f_id := randomUUID e k\<rparr>
                          else f' = f)
         (c_fonts c) (replaceSentinels e 0 (c_fonts c))"
proof
  from run obtain fs uuids gs where
    f: "formatFonts e (c_fonts c) [] = Inr (fs, uuids)" and
    g: "c_groups c = Some gs" and
    c': "c' = c\<lparr>c_fonts := map format_font (array_sort sortByName fs),
                c_groups := Some (array_sort sortGroupsByName
                            (map (\<lambda>g. g\<lparr>g_fonts := array_sort_default (g_fonts g)\<rparr>) gs))\<rparr>"
    by (auto simp: format_main_def split: sum.splits prod.splits option.splits)
  have "mset (map unorderedFont (map format_font (array_sort sortByName fs)))
        = mset (map unorderedFont (map (\<lambda>f. f\<lparr>f_other := []\<rparr>) (array_sort sortByName fs)))"
    by (simp add: unorderedFont_format_font comp_def)
  also have "\<dots> = image_mset (\<lambda>f. unorderedFont (f\<lparr>f_other := []\<rparr>)) (mset (array_sort sortByName fs))"
    by (simp add: comp_def)
  also have "\<dots> = mset (map unorderedFont (map (\<lambda>f. f\<lparr>f_other := []\<rparr>) fs))"
    by (simp add: mset_array_sort comp_def)
  also from map_unorderedFont_drop_other[OF formatFonts_unordered[OF f]]
  have "\<dots> = mset (map unorderedFont
                  (map (\<lambda>f. f\<lparr>f_other := []\<rparr>) (replaceSentinels e 0 (c_fonts c))))"
    by simp
  finally have fonts: "mset (map unorderedFont (c_fonts c'))
        = mset (map unorderedFont
                  (map (\<lambda>f. f\<lparr>f_other := []\<rparr>) (replaceSentinels e 0 (c_fonts c))))"
    by (simp add: c')
  have "mset (map unorderedGroup (array_sort sortGroupsByName
                            (map (\<lambda>g. g\<lparr>g_fonts := array_sort_default (g_fonts g)\<rparr>) gs)))
        = image_mset unorderedGroup (mset (array_sort sortGroupsByName
                            (map (\<lambda>g. g\<lparr>g_fonts := array_sort_default (g_fonts g)\<rparr>) gs)))"
    by simp
  also have "\<dots> = mset (map unorderedGroup gs)"
  proof -
    have "unorderedGroup (g\<lparr>g_fonts := array_sort_default (g_fonts g)\<rparr>) = unorderedGroup g" for g
      by (simp add: unorderedGroup_def array_sort_default_def mset_array_sort)
    then show ?thesis
      by (simp add: mset_array_sort image_mset.compositionality comp_def)
  qed
  finally have groups: "map_option (\<lambda>gs. mset (map unorderedGroup gs)) (c_groups c')
        = map_option (\<lambda>gs. mset (map unorderedGroup gs)) (c_groups c)"
    by (simp add: c' g)
  from fonts groups show "unorderedCatalog c'
           = unorderedCatalog
               (c\<lparr>c_fonts := map (\<lambda>f. f\<lparr>f_other := []\<rparr>) (replaceSentinels e 0 (c_fonts c))\<rparr>)"
    by (simp add: unorderedCatalog_def c')
next
  show "list_all2 (\<lambda>f f'. if f_id f = ''<UUID>'' then \<exists>k. f' = f\<lparr>f_id := randomUUID e k\<rparr>
                          else f' = f)
         (c_fonts c) (replaceSentinels e 0 (c_fonts c))"
    by (rule replaceSentinels_frame)
qed

theorem format_frame_witness:
  "map f_id (c_fonts catalog_unformatted) = [''<UUID>'', ''id-of-Arial'']
   \<and> map f_id (c_fonts (fst (projr (format_main example_env catalog_unformatted))))
        = [''id-of-Arial'', ''3b241101-e2bb-4255-8caf-4136c566a962'']
   \<and> unorderedCatalog (fst (projr (format_main example_env catalog_unformatted)))
        = unorderedCatalog
            (catalog_unformatted\<lparr>c_fonts := map (\<lambda>f. f\<lparr>f_other := []\<rparr>)
                (replaceSentinels example_env 0 (c_fonts catalog_unformatted))\<rparr>)"
proof -
  let ?r = "format_main example_env catalog_unformatted"
  have "?r = Inr (projr ?r)" by code_simp
  then have run: "?r = Inr (fst (projr ?r), snd (projr ?r))" by simp
  have a: "map f_id (c_fonts catalog_unformatted) = [''<UUID>'', ''id-of-Arial'']" by code_simp
  have b: "map f_id (c_fonts (fst (projr ?r)))
        = [''id-of-Arial'', ''3b241101-e2bb-4255-8caf-4136c566a962'']" by code_simp
  from format_frame[OF run] a b show ?thesis by blast
qed

text \<open>
  Claim C9 as stated fails on \<open>example_catalog\<close>, which has no sentinel id: the
  formatted catalog is not the catalog up to the order of its arrays, because the
  \<open>license\<close> attribute of its fonts is gone.
\<close>

theorem format_frame_counterexample:
  "replaceSentinels example_env 0 (c_fonts example_catalog) = c_fonts example_catalog
   \<and> unorderedCatalog (fst (projr (format_main example_env example_catalog)))
        \<noteq> unorderedCatalog example_catalog
   \<and> map f_other (c_fonts example_catalog)
        = [[(''license'', JString ''EULA'')], [(''license'', JString ''EULA'')]]
   \<and> map f_other (c_fonts (fst (projr (format_main example_env example_catalog)))) = [[], []]"
  by code_simp

end
